theory Spec2Isabelle
  imports Main "HOL-Library.AList" "HOL-Library.Word"
begin

section \<open>What the module takes from outside\<close>

text \<open>
  The model follows \<^verbatim>\<open>jina/types/arrays/memmap.py\<close>, class \<^verbatim>\<open>DocumentArrayMemmap\<close>.
  The two files of a store are described by their contents as the file objects of the
  instance see them: \<^verbatim>\<open>header.bin\<close> as the list of its fixed-width entries and
  \<^verbatim>\<open>body.bin\<close> as its bytes. Failures of the storage medium are not modelled. Offsets
  are Python integers (\<open>int\<close>); in the file they are 64-bit fields, which every offset of
  a file that a file system can hold fits.
\<close>

type_synonym byte = "8 word"
type_synonym key = string

datatype py_error = KeyError | IndexError | TypeError | ValueError | OverflowError | OSError

text \<open>
  \<^verbatim>\<open>PAGE_SIZE = mmap.ALLOCATIONGRANULARITY\<close> and the \<^verbatim>\<open>Document\<close> class are not part of
  the module. They are parameters of the model: the page size, \<^verbatim>\<open>doc.binary_str()\<close>,
  the constructor \<^verbatim>\<open>Document(bytes)\<close>, the attribute \<^verbatim>\<open>doc.id\<close> and the assignment
  \<^verbatim>\<open>doc.id = key\<close>.
\<close>

record 'd platform =
  PAGE_SIZE :: int
  binary_str :: "'d \<Rightarrow> byte list"
  Document :: "byte list \<Rightarrow> 'd"
  doc_id :: "'d \<Rightarrow> key"
  set_id :: "key \<Rightarrow> 'd \<Rightarrow> 'd"

section \<open>The buffer pool\<close>

text \<open>
  Modelled from the spec: the class \<^verbatim>\<open>BufferPoolManager\<close> of \<^verbatim>\<open>buffer.py\<close> is not among
  the sources. Section 4.3 of the specification gives its contract: a cache of at most
  \<open>pool_size\<close> records by key, \<open>add_or_update\<close> inserting or overwriting and evicting by
  recency when the capacity is exceeded, \<open>contains\<close>, \<open>get\<close>, \<open>delete_if_exists\<close> and
  \<open>clear\<close>, all of them memory-only. The list keeps the least recently written entry
  first.
\<close>

record 'd pool =
  pool_size :: nat
  buffer :: "(key \<times> 'd) list"

definition BufferPoolManager :: "nat \<Rightarrow> 'd pool" where
  "BufferPoolManager n = \<lparr>pool_size = n, buffer = []\<rparr>"

definition add_or_update :: "key \<Rightarrow> 'd \<Rightarrow> 'd pool \<Rightarrow> 'd pool" where
  "add_or_update k d bp =
     (let xs = AList.delete k (buffer bp) @ [(k, d)]
      in bp\<lparr>buffer := drop (length xs - pool_size bp) xs\<rparr>)"

definition pool_contains :: "'d pool \<Rightarrow> key \<Rightarrow> bool" where
  "pool_contains bp k = (k \<in> set (map fst (buffer bp)))"

definition pool_get :: "'d pool \<Rightarrow> key \<Rightarrow> py_error + 'd" where
  "pool_get bp k = (case map_of (buffer bp) k of None \<Rightarrow> Inl KeyError | Some d \<Rightarrow> Inr d)"

definition delete_if_exists :: "key \<Rightarrow> 'd pool \<Rightarrow> 'd pool" where
  "delete_if_exists k bp = bp\<lparr>buffer := AList.delete k (buffer bp)\<rparr>"

definition pool_clear :: "'d pool \<Rightarrow> 'd pool" where
  "pool_clear bp = bp\<lparr>buffer := []\<rparr>"

section \<open>The header file and the header map\<close>

text \<open>
  A header entry is \<^verbatim>\<open>(key, page offset, start, end)\<close>. The key field is a numpy string
  of \<open>key_length\<close> characters: writing a longer key cuts it, and reading drops the NUL
  characters that pad the field at its end. The model assumes \<open>key_length\<close> is positive.
\<close>

type_synonym header_entry = "key \<times> int \<times> int \<times> int"
type_synonym pos_info = "int \<times> int \<times> int \<times> int"

definition HEADER_NONE_ENTRY :: "int \<times> int \<times> int" where
  "HEADER_NONE_ENTRY = (- 1, - 1, - 1)"

definition np_str :: "nat \<Rightarrow> key \<Rightarrow> key" where
  "np_str n k = rev (dropWhile (\<lambda>c. c = CHR 0x00) (rev (take n k)))"

definition header_entry_size :: "nat \<Rightarrow> int" where
  "header_entry_size kl = 24 + 4 * int kl"

definition int64_add :: "int \<Rightarrow> int \<Rightarrow> int" where
  \<comment> \<open>the sum of two \<^verbatim>\<open>np.int64\<close> scalars wraps around\<close>
  "int64_add a b = (a + b + 2 ^ 63) mod 2 ^ 64 - 2 ^ 63"

definition int_truediv :: "int \<Rightarrow> int \<Rightarrow> int" where
  \<comment> \<open>\<^verbatim>\<open>int(a / b)\<close>: the quotient as a float, cut towards zero. The float quotient of
      integers below \<open>2 ^ 53\<close> is cut to the same integer as the exact quotient; the
      model computes with the exact quotient.\<close>
  "int_truediv a b = sgn a * sgn b * (\<bar>a\<bar> div \<bar>b\<bar>)"

definition is_tombstone :: "header_entry \<Rightarrow> bool" where
  "is_tombstone r = (snd r = HEADER_NONE_ENTRY)"

fun load_entries :: "nat \<Rightarrow> header_entry list \<Rightarrow> (key \<times> pos_info) list \<Rightarrow> (key \<times> pos_info) list" where
  "load_entries idx [] m = m"
| "load_entries idx (r # rs) m =
     load_entries (Suc idx) rs
       (if is_tombstone r then m
        else AList.update (fst r) (int idx, fst (snd r), fst (snd (snd r)), snd (snd (snd r))) m)"

section \<open>The store\<close>

record 'd memmap =
  header_path :: string
  body_path :: string
  key_length :: nat
  header_file :: "header_entry list"
  body_file :: "byte list"
  body_pos :: int
  header_map :: "(key \<times> pos_info) list"
  start :: int
  buffer_pool :: "'d pool"

definition os_path_join :: "string \<Rightarrow> string \<Rightarrow> string" where
  "os_path_join a b =
     (if b \<noteq> [] \<and> hd b = CHR ''/'' then b
      else if a = [] \<or> last a = CHR ''/'' then a @ b
      else a @ ''/'' @ b)"

definition truncating :: "string \<Rightarrow> bool" where
  "truncating mode = (CHR ''w'' \<in> set mode)"

definition load_header_body :: "'d memmap \<Rightarrow> string \<Rightarrow> py_error + 'd memmap" where
  "load_header_body self mode =
     (let tmp = (if truncating mode then [] else header_file self);
          body = (if truncating mode then [] else body_file self);
          hm = load_entries 0 tmp [];
          self1 = self\<lparr>header_file := tmp, body_file := body, body_pos := 0,
                       header_map := hm, start := 0\<rparr>
      in if hm = [] then Inr self1
         else let s = int64_add (fst (snd (last tmp))) (snd (snd (snd (last tmp))))
              in if s < 0 then Inl OSError
                 else Inr (self1\<lparr>start := s, body_pos := s\<rparr>))"

definition init :: "string \<Rightarrow> nat \<Rightarrow> nat \<Rightarrow> header_entry list \<Rightarrow> byte list \<Rightarrow> py_error + 'd memmap" where
  \<comment> \<open>the constructor on a directory whose two files hold \<open>hdr\<close> and \<open>body\<close>
      (both empty when the directory is new)\<close>
  "init path kl buffer_pool_size hdr body =
     load_header_body
       \<lparr>header_path = os_path_join path ''header.bin'',
        body_path = os_path_join path ''body.bin'',
        key_length = kl, header_file = hdr, body_file = body, body_pos = 0,
        header_map = [], start = 0,
        buffer_pool = BufferPoolManager buffer_pool_size\<rparr> ''a''"

definition reload :: "'d memmap \<Rightarrow> py_error + 'd memmap" where
  "reload self =
     (case load_header_body self ''a'' of
        Inl e \<Rightarrow> Inl e
      | Inr self1 \<Rightarrow> Inr (self1\<lparr>buffer_pool := pool_clear (buffer_pool self1)\<rparr>))"

definition len :: "'d memmap \<Rightarrow> int" where
  "len self = int (length (header_map self))"

definition clear :: "'d memmap \<Rightarrow> py_error + 'd memmap" where
  "clear self = load_header_body self ''wb''"

definition file_write :: "byte list \<Rightarrow> nat \<Rightarrow> byte list \<Rightarrow> byte list" where
  \<comment> \<open>writing \<open>v\<close> at position \<open>pos\<close>: a gap behind the end of the file reads as zeros\<close>
  "file_write f pos v =
     take pos f @ replicate (pos - length f) 0 @ v @ drop (pos + length v) f"

definition append :: "'d platform \<Rightarrow> 'd memmap \<Rightarrow> 'd \<Rightarrow> bool \<Rightarrow> 'd memmap" where
  \<comment> \<open>the parameter \<^verbatim>\<open>flush\<close> has no effect on what the file objects hold\<close>
  "append P self doc update_buffer =
     (let val = binary_str P doc;
          l = int (length val);
          p = int_truediv (start self) (PAGE_SIZE P) * PAGE_SIZE P;
          r = start self mod PAGE_SIZE P;
          self1 = self\<lparr>
            header_file := header_file self @ [(np_str (key_length self) (doc_id P doc), p, r, r + l)],
            header_map := AList.update (doc_id P doc) (len self, p, r, r + l) (header_map self),
            start := p + r + l,
            body_file := file_write (body_file self) (nat (body_pos self)) val,
            body_pos := body_pos self + l\<rparr>
      in if update_buffer
         then self1\<lparr>buffer_pool := add_or_update (doc_id P doc) doc (buffer_pool self1)\<rparr>
         else self1)"

fun extend :: "'d platform \<Rightarrow> 'd memmap \<Rightarrow> 'd list \<Rightarrow> 'd memmap" where
  "extend P self [] = self"
| "extend P self (d # ds) =
     (let self1 = append P self d True
      in extend P (self1\<lparr>buffer_pool := add_or_update (doc_id P d) d (buffer_pool self1)\<rparr>) ds)"

datatype slice = Slice (slice_start: "int option") (slice_stop: "int option") (slice_step: "int option")

definition py_range :: "int \<Rightarrow> int \<Rightarrow> int \<Rightarrow> int list" where
  "py_range a b s =
     (if 0 < s then (if a < b then map (\<lambda>i. a + int i * s) [0..<nat ((b - a + s - 1) div s)] else [])
      else if s < 0 then (if b < a then map (\<lambda>i. a + int i * s) [0..<nat ((a - b - s - 1) div (- s))] else [])
      else [])"

definition iteridx_by_slice :: "'d memmap \<Rightarrow> slice \<Rightarrow> int list" where
  "iteridx_by_slice self s =
     (let n = len self;
          start0 = (case slice_start s of None \<Rightarrow> 0 | Some v \<Rightarrow> v);
          stop0 = (case slice_stop s of None \<Rightarrow> n | Some v \<Rightarrow> v);
          step0 = (case slice_step s of None \<Rightarrow> 1 | Some v \<Rightarrow> if v = 0 then 1 else v);
          stop1 = (if 0 > stop0 \<and> stop0 \<ge> - n then stop0 + n else stop0);
          start1 = (if 0 > start0 \<and> start0 \<ge> - n then start0 + n else start0);
          bounds =
            (if start1 \<le> stop1 then
               (if (start1 < 0 \<and> stop1 < 0) \<or> (start1 > n \<and> stop1 > n) then (0, 0)
                else if start1 < 0 \<and> stop1 > n then (0, n)
                else if start1 < 0 then (0, stop1)
                else if stop1 > n then (start1, n)
                else (start1, stop1))
             else (start1, stop1))
      in py_range (fst bounds) (snd bounds) step0)"

definition int2str_id :: "'d memmap \<Rightarrow> int \<Rightarrow> py_error + key" where
  \<comment> \<open>a seek to a negative position fails; a read behind the end of the file is empty,
      and element 0 of the empty array does not exist\<close>
  "int2str_id self i =
     (if i < 0 then Inl OSError
      else if nat i < length (header_file self) then Inr (fst (header_file self ! nat i))
      else Inl IndexError)"

definition str2int_id :: "'d memmap \<Rightarrow> key \<Rightarrow> py_error + int" where
  "str2int_id self k =
     (case map_of (header_map self) k of None \<Rightarrow> Inl KeyError | Some v \<Rightarrow> Inr (fst v))"

definition py_slice_from :: "byte list \<Rightarrow> int \<Rightarrow> byte list" where
  \<comment> \<open>\<^verbatim>\<open>m[r:]\<close>\<close>
  "py_slice_from m r = (if r < 0 then drop (nat (int (length m) + r)) m else drop (nat r) m)"

definition mmap_read :: "int \<Rightarrow> byte list \<Rightarrow> int \<Rightarrow> int \<Rightarrow> py_error + byte list" where
  \<comment> \<open>\<^verbatim>\<open>mmap.mmap(fileno, offset=p, length=l)\<close> on a regular file: the mapped bytes\<close>
  "mmap_read ps f p l =
     (let size = int (length f)
      in if l < 0 \<or> p < 0 then Inl OverflowError
         else if l = 0 then
           (if size = 0 \<or> size \<le> p then Inl ValueError
            else if p mod ps \<noteq> 0 then Inl OSError
            else Inr (drop (nat p) f))
         else if size < p \<or> size - p < l then Inl ValueError
         else if p mod ps \<noteq> 0 then Inl OSError
         else Inr (take (nat l) (drop (nat p) f)))"

definition get_doc_by_key :: "'d platform \<Rightarrow> 'd memmap \<Rightarrow> key \<Rightarrow> py_error + 'd" where
  "get_doc_by_key P self k =
     (case map_of (header_map self) k of
        None \<Rightarrow> Inl KeyError
      | Some (_, p, r, l) \<Rightarrow>
          (case mmap_read (PAGE_SIZE P) (body_file self) p l of
             Inl e \<Rightarrow> Inl e
           | Inr m \<Rightarrow> Inr (Document P (py_slice_from m r))))"

definition getitem_str :: "'d platform \<Rightarrow> 'd memmap \<Rightarrow> key \<Rightarrow> py_error + 'd" where
  "getitem_str P self k =
     (if pool_contains (buffer_pool self) k then pool_get (buffer_pool self) k
      else get_doc_by_key P self k)"

definition getitem_int :: "'d platform \<Rightarrow> 'd memmap \<Rightarrow> int \<Rightarrow> py_error + 'd" where
  "getitem_int P self i =
     (case int2str_id self i of Inl e \<Rightarrow> Inl e | Inr k \<Rightarrow> getitem_str P self k)"

fun collect :: "('a \<Rightarrow> py_error + 'b) \<Rightarrow> 'a list \<Rightarrow> py_error + 'b list" where
  "collect f [] = Inr []"
| "collect f (x # xs) =
     (case f x of
        Inl e \<Rightarrow> Inl e
      | Inr y \<Rightarrow> (case collect f xs of Inl e \<Rightarrow> Inl e | Inr ys \<Rightarrow> Inr (y # ys)))"

definition get_doc_array_by_slice :: "'d platform \<Rightarrow> 'd memmap \<Rightarrow> slice \<Rightarrow> py_error + 'd list" where
  "get_doc_array_by_slice P self s = collect (getitem_int P self) (iteridx_by_slice self s)"

datatype index = Int_key int | Str_key key | Slice_key slice | Other_key

datatype 'd item = One_doc 'd | Doc_array "'d list"

definition getitem :: "'d platform \<Rightarrow> 'd memmap \<Rightarrow> index \<Rightarrow> py_error + 'd item" where
  "getitem P self k =
     (case k of
        Str_key s \<Rightarrow> map_sum id One_doc (getitem_str P self s)
      | Int_key i \<Rightarrow> map_sum id One_doc (getitem_int P self i)
      | Slice_key s \<Rightarrow> map_sum id Doc_array (get_doc_array_by_slice P self s)
      | Other_key \<Rightarrow> Inl TypeError)"

definition header_write_at :: "header_entry list \<Rightarrow> nat \<Rightarrow> header_entry \<Rightarrow> header_entry list" where
  \<comment> \<open>writing one entry at slot \<open>i\<close>; slots skipped behind the end of the file read as zeros\<close>
  "header_write_at f i e =
     (if i < length f then f[i := e] else f @ replicate (i - length f) ([], 0, 0, 0) @ [e])"

definition del_doc :: "'d memmap \<Rightarrow> int \<Rightarrow> key \<Rightarrow> py_error + 'd memmap" where
  "del_doc self idx str_key =
     (if idx < 0 then Inl OSError
      else if str_key \<notin> set (map fst (header_map self)) then Inl KeyError
      else Inr (self\<lparr>
        header_file := header_write_at (header_file self) (nat idx)
                         (np_str (key_length self) str_key, - 1, - 1, - 1),
        header_map := AList.delete str_key (header_map self),
        buffer_pool := delete_if_exists str_key (buffer_pool self)\<rparr>))"

fun del_docs :: "'d memmap \<Rightarrow> int list \<Rightarrow> py_error + 'd memmap" where
  "del_docs self [] = Inr self"
| "del_docs self (idx # rest) =
     (case int2str_id self idx of
        Inl e \<Rightarrow> Inl e
      | Inr str_key \<Rightarrow>
          (case del_doc self idx str_key of Inl e \<Rightarrow> Inl e | Inr self1 \<Rightarrow> del_docs self1 rest))"

definition delitem :: "'d memmap \<Rightarrow> index \<Rightarrow> py_error + 'd memmap" where
  "delitem self k =
     (case k of
        Str_key s \<Rightarrow>
          (case str2int_id self s of Inl e \<Rightarrow> Inl e | Inr idx \<Rightarrow> del_doc self idx s)
      | Int_key idx \<Rightarrow>
          (case int2str_id self idx of Inl e \<Rightarrow> Inl e | Inr str_key \<Rightarrow> del_doc self idx str_key)
      | Slice_key s \<Rightarrow> del_docs self (iteridx_by_slice self s)
      | Other_key \<Rightarrow> Inl TypeError)"

definition iter :: "'d platform \<Rightarrow> 'd memmap \<Rightarrow> py_error + 'd list" where
  "iter P self = collect (getitem_str P self) (map fst (header_map self))"

definition setitem :: "'d platform \<Rightarrow> 'd memmap \<Rightarrow> index \<Rightarrow> 'd \<Rightarrow> py_error + 'd memmap" where
  "setitem P self k val =
     (case k of
        Int_key i \<Rightarrow>
          (if 0 \<le> i \<and> i < len self then
             (case int2str_id self i of
                Inl e \<Rightarrow> Inl e
              | Inr str_key \<Rightarrow>
                  (let self1 = append P self val True;
                       self2 = self1\<lparr>header_map :=
                                 AList.update str_key (the (map_of (header_map self1) (doc_id P val)))
                                   (header_map self1)\<rparr>;
                       self3 = self2\<lparr>buffer_pool := add_or_update str_key val (buffer_pool self2)\<rparr>
                   in if str_key \<noteq> doc_id P val then
                        (case delitem self3 (Str_key (doc_id P val)) of
                           Inl e \<Rightarrow> Inl e
                         | Inr self4 \<Rightarrow>
                             Inr (self4\<lparr>buffer_pool :=
                                    delete_if_exists (doc_id P val) (buffer_pool self4)\<rparr>))
                      else Inr self3))
           else Inl IndexError)
      | Str_key s \<Rightarrow>
          (let val1 = set_id P s val;
               self1 = append P self val1 True
           in Inr (self1\<lparr>buffer_pool := add_or_update s val1 (buffer_pool self1)\<rparr>))
      | _ \<Rightarrow> Inl TypeError)"


datatype 'd py_object = Instance string "'d memmap" | Foreign

definition eq :: "string \<Rightarrow> 'd memmap \<Rightarrow> 'd py_object \<Rightarrow> bool" where
  \<comment> \<open>\<^verbatim>\<open>self == other\<close> for \<open>self\<close> an instance of class \<open>cls\<close>\<close>
  "eq cls self other =
     (case other of
        Instance cls' other' \<Rightarrow>
          cls = cls' \<and> header_path self = header_path other' \<and> body_path self = body_path other'
      | Foreign \<Rightarrow> False)"

definition prune :: "'d platform \<Rightarrow> string \<Rightarrow> 'd memmap \<Rightarrow> py_error + 'd memmap" where
  \<comment> \<open>\<open>tdir\<close> is the fresh directory of \<^verbatim>\<open>tempfile.mkdtemp()\<close>\<close>
  "prune P tdir self =
     (case init tdir (key_length self) 1000 [] [] of
        Inl e \<Rightarrow> Inl e
      | Inr dam \<Rightarrow>
          (case iter P self of
             Inl e \<Rightarrow> Inl e
           | Inr ds \<Rightarrow>
               (case reload (extend P dam ds) of
                  Inl e \<Rightarrow> Inl e
                | Inr dam1 \<Rightarrow>
                    reload (self\<lparr>header_file := header_file dam1, body_file := body_file dam1\<rparr>))))"

definition disk_usage :: "'d memmap \<Rightarrow> int" where
  "disk_usage self =
     header_entry_size (key_length self) * int (length (header_file self))
       + int (length (body_file self))"

section \<open>Example values\<close>

text \<open>
  A small platform for concrete runs: a document is its own byte string, its id is made of
  the characters given by its first \<open>n\<close> bytes.
\<close>

definition example_platform :: "int \<Rightarrow> nat \<Rightarrow> byte list platform" where
  "example_platform ps n =
     \<lparr>PAGE_SIZE = ps, binary_str = id, Document = id,
      doc_id = (\<lambda>d. map (\<lambda>b. char_of (unat b)) (take n d)),
      set_id = (\<lambda>k d. map (\<lambda>c. of_nat (of_char c)) (take n k) @ drop n d)\<rparr>"

definition empty_store :: "string \<Rightarrow> nat \<Rightarrow> nat \<Rightarrow> 'd memmap" where
  "empty_store path kl n =
     \<lparr>header_path = os_path_join path ''header.bin'',
      body_path = os_path_join path ''body.bin'',
      key_length = kl, header_file = [], body_file = [], body_pos = 0,
      header_map = [], start = 0, buffer_pool = BufferPoolManager n\<rparr>"

definition ex_P :: "byte list platform" where
  "ex_P = example_platform 8 1"

definition ex_store :: "byte list memmap" where
  "ex_store = empty_store ''tmp'' 36 1000"

definition doc_a :: "byte list" where
  "doc_a = [97, 1, 2, 3, 4, 5, 6, 7]"

definition doc_b :: "byte list" where
  "doc_b = [98, 5, 6]"

definition doc_x :: "byte list" where
  "doc_x = [120, 9, 9, 9]"

definition doc_x2 :: "byte list" where
  "doc_x2 = [120, 7]"

definition last_entry_sum :: "header_entry list \<Rightarrow> int" where
  \<comment> \<open>page offset plus end of the last physical entry\<close>
  "last_entry_sum hdr = fst (snd (last hdr)) + snd (snd (snd (last hdr)))"

section \<open>Sequences of appends and deletions\<close>

text \<open>
  A sequence of \<^verbatim>\<open>append(doc)\<close> and \<^verbatim>\<open>del dam[key]\<close> calls, run from left to right; the
  first exception ends the run. \<open>appended_not_tombstoned\<close> follows the words of the
  specification: the appended records whose keys have not subsequently been tombstoned.
\<close>

datatype 'd edit = Add 'd | Del key

fun run_edits :: "'d platform \<Rightarrow> 'd memmap \<Rightarrow> 'd edit list \<Rightarrow> py_error + 'd memmap" where
  "run_edits P s [] = Inr s"
| "run_edits P s (Add d # es) = run_edits P (append P s d True) es"
| "run_edits P s (Del k # es) =
     (case delitem s (Str_key k) of Inl e \<Rightarrow> Inl e | Inr s1 \<Rightarrow> run_edits P s1 es)"

fun appended_not_tombstoned :: "'d platform \<Rightarrow> 'd edit list \<Rightarrow> 'd list" where
  "appended_not_tombstoned P [] = []"
| "appended_not_tombstoned P (Add d # es) =
     (if Del (doc_id P d) \<in> set es then appended_not_tombstoned P es
      else d # appended_not_tombstoned P es)"
| "appended_not_tombstoned P (Del k # es) = appended_not_tombstoned P es"

section \<open>Histories of a store\<close>

text \<open>
  The mutating operations of the class, run from left to right on a store; the first
  exception ends the run. Next to the store the run collects the keys ever appended: the
  key of every record that an operation passes to \<^verbatim>\<open>append\<close>. A compaction appends the
  records it reads from the store to the new files that replace the old ones.
  \<open>key_inv\<close> is the invariant that the history of a store keeps.
\<close>

datatype 'd operation =
    Op_append 'd bool
  | Op_extend "'d list"
  | Op_setitem index 'd
  | Op_delitem index
  | Op_reload
  | Op_clear
  | Op_prune string

fun run_op :: "'d platform \<Rightarrow> 'd memmap \<Rightarrow> 'd operation \<Rightarrow> py_error + 'd memmap" where
  "run_op P s (Op_append d ub) = Inr (append P s d ub)"
| "run_op P s (Op_extend ds) = Inr (extend P s ds)"
| "run_op P s (Op_setitem k d) = setitem P s k d"
| "run_op P s (Op_delitem k) = delitem s k"
| "run_op P s Op_reload = reload s"
| "run_op P s Op_clear = clear s"
| "run_op P s (Op_prune tdir) = prune P tdir s"

fun appended_keys :: "'d platform \<Rightarrow> 'd memmap \<Rightarrow> 'd operation \<Rightarrow> key list" where
  "appended_keys P s (Op_append d ub) = [doc_id P d]"
| "appended_keys P s (Op_extend ds) = map (doc_id P) ds"
| "appended_keys P s (Op_setitem (Int_key i) d) = [doc_id P d]"
| "appended_keys P s (Op_setitem (Str_key k) d) = [doc_id P (set_id P k d)]"
| "appended_keys P s (Op_prune tdir) =
     (case iter P s of Inl e \<Rightarrow> [] | Inr ds \<Rightarrow> map (doc_id P) ds)"
| "appended_keys P s _ = []"

fun run :: "'d platform \<Rightarrow> 'd memmap \<times> key list \<Rightarrow> 'd operation list
    \<Rightarrow> py_error + 'd memmap \<times> key list" where
  "run P (s, A) [] = Inr (s, A)"
| "run P (s, A) (x # xs) =
     (case run_op P s x of
        Inl e \<Rightarrow> Inl e
      | Inr s1 \<Rightarrow> run P (s1, A @ appended_keys P s x) xs)"

definition key_inv :: "nat \<Rightarrow> 'd memmap \<Rightarrow> key set \<Rightarrow> bool" where
  "key_inv kl s A \<longleftrightarrow>
     key_length s = kl
     \<and> set (map fst (header_map s)) \<subseteq> A \<union> np_str kl ` A
     \<and> fst ` set (header_file s) \<subseteq> np_str kl ` A
     \<and> (\<forall>e \<in> set (header_map s). 0 \<le> fst (snd e) \<and> nat (fst (snd e)) < length (header_file s))
     \<and> length (header_map s) \<le> length (header_file s)"

definition ex_history :: "byte list operation list" where
  "ex_history =
     [Op_append doc_a True, Op_append doc_b True, Op_delitem (Int_key 0), Op_prune ''t'',
      Op_setitem (Str_key ''x'') doc_b, Op_extend [doc_x2, doc_a], Op_setitem (Int_key 1) doc_b]"

section \<open>What an extend writes\<close>

text \<open>
  The header entries that appending the records \<open>ds\<close> one after the other produces
  from write cursor \<open>a\<close>, and the bytes they add to the body.
\<close>

fun layout :: "'d platform \<Rightarrow> nat \<Rightarrow> int \<Rightarrow> 'd list \<Rightarrow> header_entry list" where
  "layout P kl a [] = []"
| "layout P kl a (d # ds) =
     (np_str kl (doc_id P d), int_truediv a (PAGE_SIZE P) * PAGE_SIZE P, a mod PAGE_SIZE P,
      a mod PAGE_SIZE P + int (length (binary_str P d)))
     # layout P kl (a + int (length (binary_str P d))) ds"

definition payload_bytes :: "'d platform \<Rightarrow> 'd list \<Rightarrow> byte list" where
  "payload_bytes P ds = concat (map (binary_str P) ds)"

section \<open>Byte ranges of the live entries\<close>

text \<open>
  The byte range of the body file that a live entry names runs from page offset plus
  start to page offset plus end. \<open>ranges_disjoint\<close> says that no two ranges of a list
  overlap, \<open>ranges_within\<close> that each of them lies inside a file of \<open>b\<close> bytes.
\<close>

definition live_ranges :: "'d memmap \<Rightarrow> (int \<times> int) list" where
  "live_ranges s = map (\<lambda>(k, i, p, r, e). (p + r, p + e)) (header_map s)"

fun ranges_disjoint :: "(int \<times> int) list \<Rightarrow> bool" where
  "ranges_disjoint [] = True"
| "ranges_disjoint (x # xs) =
     ((\<forall>y \<in> set xs. snd x \<le> fst y \<or> snd y \<le> fst x) \<and> ranges_disjoint xs)"

definition ranges_within :: "int \<Rightarrow> (int \<times> int) list \<Rightarrow> bool" where
  "ranges_within b xs = (\<forall>x \<in> set xs. 0 \<le> fst x \<and> fst x \<le> snd x \<and> snd x \<le> b)"

definition ex_deleted :: "byte list memmap" where
  "ex_deleted = projr (delitem (extend ex_P ex_store [doc_a, doc_b, doc_x]) (Str_key ''b''))"

definition ex_churn :: "byte list operation list" where
  "ex_churn = [Op_append doc_a True, Op_setitem (Int_key 0) doc_x, Op_append doc_x2 True]"

section \<open>Basic facts\<close>

lemma init_empty: "init path kl n [] [] = Inr (empty_store path kl n)"
  by (simp add: init_def load_header_body_def empty_store_def truncating_def)

lemma int_truediv_nonneg: "0 \<le> a \<Longrightarrow> 0 < b \<Longrightarrow> int_truediv a b = a div b"
  by (cases "a = 0") (simp_all add: int_truediv_def)

section \<open>Offsets of an append\<close>

text \<open>
  C4. An append of a payload of length \<open>l\<close> at write cursor \<open>start\<close> records the
  header entry with page offset \<open>floor(start / page_size) * page_size\<close>, start
  \<open>start mod page_size\<close> and end \<open>start mod page_size + l\<close>, and moves the cursor to
  page offset plus end, which is \<open>start + l\<close>. When that lands on a multiple of the page
  size, the next append records the new cursor itself as page offset, with start 0. The
  cursor is a file offset: not negative, and in the range where the float quotient of
  the source is exact.
\<close>

theorem append_offsets:
  assumes "0 < PAGE_SIZE P" and "PAGE_SIZE P < 2 ^ 53" and "0 \<le> start self"
    and "start self + int (length (binary_str P doc)) < 2 ^ 53"
  shows "header_file (append P self doc ub) =
           header_file self @
             [(np_str (key_length self) (doc_id P doc),
               (start self div PAGE_SIZE P) * PAGE_SIZE P,
               start self mod PAGE_SIZE P,
               start self mod PAGE_SIZE P + int (length (binary_str P doc)))]
         \<and> map_of (header_map (append P self doc ub)) (doc_id P doc) =
             Some (len self,
               (start self div PAGE_SIZE P) * PAGE_SIZE P,
               start self mod PAGE_SIZE P,
               start self mod PAGE_SIZE P + int (length (binary_str P doc)))
         \<and> start (append P self doc ub) =
             (start self div PAGE_SIZE P) * PAGE_SIZE P
               + (start self mod PAGE_SIZE P + int (length (binary_str P doc)))
         \<and> start (append P self doc ub) = start self + int (length (binary_str P doc))
         \<and> (start (append P self doc ub) mod PAGE_SIZE P = 0 \<longrightarrow>
              header_file (append P (append P self doc ub) doc' ub') =
                header_file (append P self doc ub) @
                  [(np_str (key_length self) (doc_id P doc'),
                    start (append P self doc ub), 0, int (length (binary_str P doc')))])"
proof -
  define l where "l = int (length (binary_str P doc))"
  define self1 where "self1 = append P self doc ub"
  have q: "int_truediv (start self) (PAGE_SIZE P) = start self div PAGE_SIZE P"
    using assms by (simp add: int_truediv_nonneg)
  have hf: "header_file self1 = header_file self @
      [(np_str (key_length self) (doc_id P doc), (start self div PAGE_SIZE P) * PAGE_SIZE P,
        start self mod PAGE_SIZE P, start self mod PAGE_SIZE P + l)]"
    by (simp add: self1_def append_def Let_def q l_def)
  have hm: "map_of (header_map self1) (doc_id P doc) =
      Some (len self, (start self div PAGE_SIZE P) * PAGE_SIZE P,
        start self mod PAGE_SIZE P, start self mod PAGE_SIZE P + l)"
    by (simp add: self1_def append_def Let_def q l_def AList.update_conv')
  have st: "start self1 =
      (start self div PAGE_SIZE P) * PAGE_SIZE P + (start self mod PAGE_SIZE P + l)"
    by (simp add: self1_def append_def Let_def q l_def)
  have st': "start self1 = start self + l"
    using st by simp
  have kl: "key_length self1 = key_length self"
    by (simp add: self1_def append_def Let_def)
  have nxt: "header_file (append P self1 doc' ub') =
        header_file self1 @ [(np_str (key_length self) (doc_id P doc'), start self1, 0,
           int (length (binary_str P doc')))]"
    if "start self1 mod PAGE_SIZE P = 0"
  proof -
    have "0 \<le> start self1" using st' assms l_def by simp
    then have "int_truediv (start self1) (PAGE_SIZE P) * PAGE_SIZE P = start self1"
      using that assms(1) div_mult_mod_eq [of "start self1" "PAGE_SIZE P"]
      by (simp add: int_truediv_nonneg)
    then show ?thesis using that by (simp add: append_def Let_def kl)
  qed
  show ?thesis
    unfolding l_def [symmetric] self1_def [symmetric]
    by (intro conjI impI hf hm st st' nxt)
qed

theorem append_offsets_witness:
  "header_file (append ex_P (append ex_P ex_store doc_a True) doc_b True) =
     [(''a'', 0, 0, 8), (''b'', 8, 0, 3)]"
proof -
  have h: "0 < PAGE_SIZE ex_P" "PAGE_SIZE ex_P < 2 ^ 53" "0 \<le> start ex_store"
    "start ex_store + int (length (binary_str ex_P doc_a)) < 2 ^ 53"
    by code_simp+
  have e: "start (append ex_P ex_store doc_a True) mod PAGE_SIZE ex_P = 0"
    "start (append ex_P ex_store doc_a True) = 8"
    "np_str (key_length ex_store) (doc_id ex_P doc_a) = ''a''"
    "np_str (key_length ex_store) (doc_id ex_P doc_b) = ''b''"
    "start ex_store div PAGE_SIZE ex_P * PAGE_SIZE ex_P = 0"
    "start ex_store mod PAGE_SIZE ex_P = 0"
    "int (length (binary_str ex_P doc_a)) = 8"
    "int (length (binary_str ex_P doc_b)) = 3"
    "header_file ex_store = []"
    by code_simp+
  from append_offsets [OF h, of True doc_b True] e(1)
  have "header_file (append ex_P ex_store doc_a True) =
          header_file ex_store @
            [(np_str (key_length ex_store) (doc_id ex_P doc_a),
              start ex_store div PAGE_SIZE ex_P * PAGE_SIZE ex_P,
              start ex_store mod PAGE_SIZE ex_P,
              start ex_store mod PAGE_SIZE ex_P + int (length (binary_str ex_P doc_a)))]"
    and "header_file (append ex_P (append ex_P ex_store doc_a True) doc_b True) =
          header_file (append ex_P ex_store doc_a True) @
            [(np_str (key_length ex_store) (doc_id ex_P doc_b),
              start (append ex_P ex_store doc_a True), 0, int (length (binary_str ex_P doc_b)))]"
    by blast+
  then show ?thesis by (simp add: e)
qed

section \<open>Equality of instances\<close>

text \<open>
  C10. Two store instances are equal exactly when they have the same type and the same
  header and body file paths. An object of another type is never equal to a store, and
  whatever the in-memory state and the contents of an instance at the same paths are, it
  is equal.
\<close>

theorem eq_paths_only:
  "(eq cls a (Instance cls' b) \<longleftrightarrow>
      cls = cls' \<and> header_path a = header_path b \<and> body_path a = body_path b)
   \<and> \<not> eq cls a Foreign
   \<and> eq cls a (Instance cls (b\<lparr>header_path := header_path a, body_path := body_path a\<rparr>))"
  by (simp add: eq_def)

theorem eq_paths_only_witness:
  "eq ''DocumentArrayMemmap'' ex_store
     (Instance ''DocumentArrayMemmap'' (append ex_P (empty_store ''tmp/'' 36 10) doc_a True))
   \<and> \<not> eq ''DocumentArrayMemmap'' ex_store
     (Instance ''DocumentArrayMemmap'' (empty_store ''other'' 36 1000))"
proof -
  have e: "header_path ex_store = header_path (append ex_P (empty_store ''tmp/'' 36 10) doc_a True)"
    "body_path ex_store = body_path (append ex_P (empty_store ''tmp/'' 36 10) doc_a True)"
    "header_path ex_store \<noteq> header_path (empty_store ''other'' 36 1000 :: byte list memmap)"
    by code_simp+
  from eq_paths_only [of "''DocumentArrayMemmap''" ex_store "''DocumentArrayMemmap''"
      "append ex_P (empty_store ''tmp/'' 36 10) doc_a True"]
    eq_paths_only [of "''DocumentArrayMemmap''" ex_store "''DocumentArrayMemmap''"
      "empty_store ''other'' 36 1000"]
  show ?thesis using e by simp
qed

section \<open>Reloading\<close>

text \<open>
  C8. A reload that follows a reload, with nothing changed in between, leaves the
  instance as the first reload left it; in particular the live mapping is the same both
  times.
\<close>

theorem reload_idempotent: "reload self = Inr s1 \<Longrightarrow> reload s1 = Inr s1"
  by (auto simp add: reload_def load_header_body_def truncating_def Let_def pool_clear_def
      split: if_splits sum.splits)

theorem reload_idempotent_witness:
  "reload (append ex_P ex_store doc_a True) = Inr (extend ex_P ex_store [doc_a]\<lparr>buffer_pool := BufferPoolManager 1000\<rparr>)
   \<and> reload (extend ex_P ex_store [doc_a]\<lparr>buffer_pool := BufferPoolManager 1000\<rparr>)
       = Inr (extend ex_P ex_store [doc_a]\<lparr>buffer_pool := BufferPoolManager 1000\<rparr>)
   \<and> header_map (extend ex_P ex_store [doc_a]\<lparr>buffer_pool := BufferPoolManager 1000\<rparr>)
       = [(''a'', 0, 0, 0, 8)]"
proof -
  have r: "reload (append ex_P ex_store doc_a True)
      = Inr (extend ex_P ex_store [doc_a]\<lparr>buffer_pool := BufferPoolManager 1000\<rparr>)"
    by code_simp
  have m: "header_map (extend ex_P ex_store [doc_a]\<lparr>buffer_pool := BufferPoolManager 1000\<rparr>)
       = [(''a'', 0, 0, 0, 8)]"
    by code_simp
  from reload_idempotent [OF r] r m show ?thesis by simp
qed

lemma load_entries_nonempty: "m \<noteq> [] \<Longrightarrow> load_entries i rs m \<noteq> []"
  by (induction rs arbitrary: i m) simp_all

lemma load_entries_empty_iff:
  "load_entries i rs [] = [] \<longleftrightarrow> (\<forall>r\<in>set rs. is_tombstone r)"
  by (induction rs arbitrary: i) (simp_all add: load_entries_nonempty)

lemma int64_add_in_range: "- (2 ^ 63) \<le> a + b \<Longrightarrow> a + b < 2 ^ 63 \<Longrightarrow> int64_add a b = a + b"
  by (simp add: int64_add_def)

section \<open>The write cursor after loading\<close>

text \<open>
  C1, as the code has it. Loading a header without a live entry (empty, or tombstones only)
  starts the write cursor at 0. Loading a header whose last physical entry is live, with
  a page offset and an end whose sum is a file offset, sets the cursor, and the position
  of the body file, to that sum.
\<close>

theorem load_resume_offset:
  "((\<forall>r\<in>set hdr. is_tombstone r) \<longrightarrow>
      (\<exists>s :: 'd memmap. init path kl n hdr body = Inr s \<and> start s = 0 \<and> body_pos s = 0
          \<and> header_map s = []))
   \<and> (hdr = rs @ [(k, p, r, e)] \<and> (p, r, e) \<noteq> HEADER_NONE_ENTRY \<and> 0 \<le> p + e \<and> p + e < 2 ^ 63 \<longrightarrow>
      (\<exists>s :: 'd memmap. init path kl n hdr body = Inr s \<and> start s = p + e \<and> body_pos s = p + e
          \<and> header_map s \<noteq> []))"
proof (intro conjI impI)
  assume "\<forall>r\<in>set hdr. is_tombstone r"
  then have "load_entries 0 hdr [] = []"
    by (simp add: load_entries_empty_iff)
  then show "\<exists>s :: 'd memmap. init path kl n hdr body = Inr s \<and> start s = 0 \<and> body_pos s = 0
      \<and> header_map s = []"
    by (simp add: init_def load_header_body_def truncating_def)
next
  assume a: "hdr = rs @ [(k, p, r, e)] \<and> (p, r, e) \<noteq> HEADER_NONE_ENTRY \<and> 0 \<le> p + e \<and> p + e < 2 ^ 63"
  then have "\<not> is_tombstone (last hdr)"
    by (simp add: is_tombstone_def)
  moreover have "last hdr \<in> set hdr" using a by simp
  ultimately have ne: "load_entries 0 hdr [] \<noteq> []"
    using load_entries_empty_iff [of 0 hdr] by blast
  have "int64_add p e = p + e"
    using a by (intro int64_add_in_range) simp_all
  then show "\<exists>s :: 'd memmap. init path kl n hdr body = Inr s \<and> start s = p + e \<and> body_pos s = p + e
      \<and> header_map s \<noteq> []"
    using a ne by (simp add: init_def load_header_body_def truncating_def Let_def)
qed

theorem load_resume_offset_witness:
  "(\<exists>s :: byte list memmap. init ''tmp'' 36 1000 [(''a'', - 1, - 1, - 1)] doc_a = Inr s \<and> start s = 0)
   \<and> (\<exists>s :: byte list memmap. init ''tmp'' 36 1000 [(''a'', - 1, - 1, - 1), (''b'', 8, 0, 3)]
          (doc_a @ doc_b) = Inr s \<and> start s = 11)"
proof -
  have h1: "\<forall>r\<in>set [(''a'', - 1, - 1, - 1)]. is_tombstone r"
    by (simp add: is_tombstone_def HEADER_NONE_ENTRY_def)
  have h2: "[(''a'', - 1, - 1, - 1), (''b'', 8, 0, 3)] = [(''a'', - 1, - 1, - 1)] @ [(''b'', 8, 0, 3)]
      \<and> (8, 0, 3) \<noteq> HEADER_NONE_ENTRY \<and> (0::int) \<le> 8 + 3 \<and> (8::int) + 3 < 2 ^ 63"
    by (simp add: HEADER_NONE_ENTRY_def)
  from load_resume_offset [where hdr = "[(''a'', - 1, - 1, - 1)]" and path = "''tmp''" and kl = 36
        and n = 1000 and body = doc_a and ?'d = "byte list", THEN conjunct1] h1
    load_resume_offset [where hdr = "[(''a'', - 1, - 1, - 1), (''b'', 8, 0, 3)]"
        and rs = "[(''a'', - 1, - 1, - 1)]" and k = "''b''" and p = 8 and r = 0 and e = 3
        and path = "''tmp''" and kl = 36 and n = 1000 and body = "doc_a @ doc_b"
        and ?'d = "byte list", THEN conjunct2] h2
  show ?thesis by force
qed

text \<open>
  The claim as stated fails on the header that a store is left with after its only record
  is deleted: the entry is a tombstone, the sum of its page offset and end is \<open>-2\<close>, the
  cursor after loading is 0, and the next append overwrites the bytes of the deleted
  record.
\<close>

theorem load_resume_offset_counterexample:
  "map_sum id (\<lambda>s. (header_file s, body_file s))
      (delitem (append ex_P ex_store doc_a True) (Str_key ''a''))
     = Inr ([(''a'', - 1, - 1, - 1)], [97, 1, 2, 3, 4, 5, 6, 7])
   \<and> init ''tmp'' 36 1000 [(''a'', - 1, - 1, - 1)] [97, 1, 2, 3, 4, 5, 6, 7]
       = Inr (ex_store\<lparr>header_file := [(''a'', - 1, - 1, - 1)], body_file := [97, 1, 2, 3, 4, 5, 6, 7]\<rparr>)
   \<and> start (ex_store\<lparr>header_file := [(''a'', - 1, - 1, - 1)], body_file := [97, 1, 2, 3, 4, 5, 6, 7]\<rparr>)
       \<noteq> last_entry_sum [(''a'', - 1, - 1, - 1)]
   \<and> body_file (append ex_P
         (ex_store\<lparr>header_file := [(''a'', - 1, - 1, - 1)], body_file := [97, 1, 2, 3, 4, 5, 6, 7]\<rparr>)
         doc_b True) = [98, 5, 6, 3, 4, 5, 6, 7]"
  by code_simp

section \<open>Deleting by key\<close>



lemma append_header_map:
  "header_map (append P self doc ub) =
     AList.update (doc_id P doc)
       (len self, int_truediv (start self) (PAGE_SIZE P) * PAGE_SIZE P, start self mod PAGE_SIZE P,
        start self mod PAGE_SIZE P + int (length (binary_str P doc))) (header_map self)"
  by (cases ub) (simp_all add: append_def Let_def)

lemma append_header_file:
  "header_file (append P self doc ub) =
     header_file self @
       [(np_str (key_length self) (doc_id P doc),
         int_truediv (start self) (PAGE_SIZE P) * PAGE_SIZE P, start self mod PAGE_SIZE P,
         start self mod PAGE_SIZE P + int (length (binary_str P doc)))]"
  by (cases ub) (simp_all add: append_def Let_def)

lemma append_body_file:
  "body_file (append P self doc ub) =
     file_write (body_file self) (nat (body_pos self)) (binary_str P doc)"
  by (cases ub) (simp_all add: append_def Let_def)

lemma append_start:
  "start (append P self doc ub) =
     int_truediv (start self) (PAGE_SIZE P) * PAGE_SIZE P + start self mod PAGE_SIZE P
       + int (length (binary_str P doc))"
  by (cases ub) (simp_all add: append_def Let_def)

lemma append_body_pos:
  "body_pos (append P self doc ub) = body_pos self + int (length (binary_str P doc))"
  by (cases ub) (simp_all add: append_def Let_def)

lemma append_key_length: "key_length (append P self doc ub) = key_length self"
  by (cases ub) (simp_all add: append_def Let_def)

lemma append_paths:
  "header_path (append P self doc ub) = header_path self"
  "body_path (append P self doc ub) = body_path self"
  by (cases ub; simp add: append_def Let_def)+

section \<open>Setting by ordinal\<close>

text \<open>
  C3. The code does not do what the claim says. On a store holding one record with key
  \<open>a\<close>, \<open>set(0, r)\<close> with a record of key \<open>x\<close> reads the old key \<open>a\<close> from slot 0 and
  appends \<open>r\<close> in slot 1, but then deletes the key of \<open>r\<close> instead of the old key: the
  tombstone lands in slot 1, the slot just appended, and slot 0 of the old key stays live
  in the header file. Only the live mapping of the instance names the new entry under
  \<open>a\<close>; on disk the set is lost, and the next reload fails, since the last entry of the
  header is a tombstone while a live entry exists.
\<close>

theorem setitem_by_ordinal_tombstones_new_slot:
  "int2str_id (append ex_P ex_store doc_a True) 0 = Inr ''a''
   \<and> doc_id ex_P doc_x = ''x''
   \<and> map_sum id (\<lambda>s. (header_file s, header_map s, map_sum id header_map (reload s)))
        (setitem ex_P (append ex_P ex_store doc_a True) (Int_key 0) doc_x)
       = Inr ([(''a'', 0, 0, 8), (''x'', - 1, - 1, - 1)], [(''a'', 1, 8, 0, 4)], Inl OSError)
   \<and> \<not> is_tombstone (''a'', 0, 0, 8)
   \<and> is_tombstone (''x'', - 1, - 1, - 1)"
  by code_simp

section \<open>Indexing by a slice\<close>

text \<open>
  C9. The bounds of a slice are clamped only when start is at most stop. A slice with a
  negative step and start above stop is passed to \<open>range\<close> as it is: on a store of three
  records the slice \<open>5:2:-1\<close> asks for slot 5, and the lookup raises \<open>IndexError\<close>.
\<close>

theorem slice_negative_step_raises:
  "len (extend ex_P ex_store [doc_a, doc_b, doc_x]) = 3
   \<and> getitem ex_P (extend ex_P ex_store [doc_a, doc_b, doc_x])
       (Slice_key (Slice (Some 5) (Some 2) (Some (- 1)))) = Inl IndexError"
  by code_simp

lemma delitem_str_keys:
  assumes "delitem s (Str_key k) = Inr s1"
  shows "k \<in> set (map fst (header_map s))"
    and "header_map s1 = AList.delete k (header_map s)"
  using assms
  by (auto simp add: delitem_def str2int_id_def del_doc_def split: option.splits if_splits)

lemma run_edits_keys:
  assumes "distinct (map fst (header_map s0))" and "run_edits P s0 es = Inr t"
  shows "distinct (map fst (header_map t))
     \<and> set (map fst (header_map t)) =
         {k \<in> set (map fst (header_map s0)). Del k \<notin> set es}
           \<union> doc_id P ` set (appended_not_tombstoned P es)"
  using assms
proof (induction P s0 es rule: run_edits.induct)
  case (1 P s)
  then show ?case by simp
next
  case (2 P s d es)
  have d: "distinct (map fst (header_map (append P s d True)))"
    using 2(2) by (simp add: append_header_map AList.distinct_update)
  have k: "set (map fst (header_map (append P s d True))) =
      insert (doc_id P d) (set (map fst (header_map s)))"
    using AList.dom_update [of "doc_id P d" _ "header_map s"]
    by (simp add: append_header_map)
  from 2(1) [OF d] 2(3) k show ?case
    by auto
next
  case (3 P s k es)
  from 3(3) obtain s1 where s1: "delitem s (Str_key k) = Inr s1" and r: "run_edits P s1 es = Inr t"
    by (auto split: sum.splits)
  note dk = delitem_str_keys [OF s1]
  have d: "distinct (map fst (header_map s1))"
    using 3(2) by (simp add: dk AList.distinct_delete)
  have k1: "set (map fst (header_map s1)) = set (map fst (header_map s)) - {k}"
    by (simp add: dk AList.delete_keys)
  from 3(1) [OF s1 d r] k1 show ?case
    by auto
qed

section \<open>The reported size\<close>

text \<open>
  C5, as the code has it. After a sequence of appends and deletions by key on a new
  store, \<open>len\<close> is the number of distinct keys among the appended records whose keys
  have not subsequently been tombstoned: the live mapping holds one entry per key, and
  an append under a key that is live replaces its entry.
\<close>

theorem len_counts_live_keys:
  assumes "run_edits P (empty_store path kl n) es = Inr t"
  shows "len t = int (card (doc_id P ` set (appended_not_tombstoned P es)))"
proof -
  have "distinct (map fst (header_map (empty_store path kl n :: 'a memmap)))"
    by (simp add: empty_store_def)
  from run_edits_keys [OF this assms]
  have d: "distinct (map fst (header_map t))"
    and k: "set (map fst (header_map t)) = doc_id P ` set (appended_not_tombstoned P es)"
    by (simp_all add: empty_store_def)
  have "len t = int (length (map fst (header_map t)))"
    by (simp add: len_def)
  also have "\<dots> = int (card (set (map fst (header_map t))))"
    using d by (simp only: distinct_card)
  finally show ?thesis by (simp only: k)
qed

theorem len_counts_live_keys_witness:
  "map_sum id len
     (run_edits ex_P ex_store [Add doc_a, Add doc_x, Del ''a'', Add doc_x2, Add doc_b]) = Inr 2"
proof -
  have "\<not> isl (run_edits ex_P ex_store [Add doc_a, Add doc_x, Del ''a'', Add doc_x2, Add doc_b])"
    by code_simp
  then obtain t where
    t: "run_edits ex_P ex_store [Add doc_a, Add doc_x, Del ''a'', Add doc_x2, Add doc_b] = Inr t"
    by (cases "run_edits ex_P ex_store [Add doc_a, Add doc_x, Del ''a'', Add doc_x2, Add doc_b]")
      auto
  have c: "card (doc_id ex_P `
      set (appended_not_tombstoned ex_P [Add doc_a, Add doc_x, Del ''a'', Add doc_x2, Add doc_b])) = 2"
    by code_simp
  from len_counts_live_keys [OF t [unfolded ex_store_def]] have "len t = 2"
    unfolding c by simp
  then show ?thesis
    unfolding t by simp
qed

text \<open>
  The claim as stated counts records: two appended records with the same key, neither
  tombstoned, are two records, and the reported size is 1.
\<close>

theorem len_counts_live_keys_counterexample:
  "map_sum id len (run_edits ex_P ex_store [Add doc_x, Add doc_x2]) = Inr 1
   \<and> length (appended_not_tombstoned ex_P [Add doc_x, Add doc_x2]) = 2"
  by code_simp

section \<open>The keys of the header index\<close>

lemma np_str_idem: "np_str n (np_str n k) = np_str n k"
proof -
  have "length (dropWhile (\<lambda>c. c = CHR 0x00) (rev (take n k))) \<le> n"
    by (rule order_trans [OF length_dropWhile_le]) simp
  then show ?thesis
    by (simp add: np_str_def)
qed

lemma set_alist_update: "set (AList.update k v al) \<subseteq> insert (k, v) (set al)"
  by (induction al) auto

lemma length_alist_update: "length (AList.update k v al) \<le> Suc (length al)"
  by (induction al) auto

lemma length_alist_update_mem: "k \<in> fst ` set al \<Longrightarrow> length (AList.update k v al) = length al"
  by (induction al) auto

lemma length_alist_delete_mem: "k \<in> fst ` set al \<Longrightarrow> length (AList.delete k al) < length al"
proof (induction al)
  case Nil
  then show ?case by simp
next
  case (Cons a al)
  show ?case
  proof (cases "fst a = k")
    case True
    then show ?thesis
      using AList.length_delete_le [of k al] by simp
  next
    case False
    with Cons.prems have "k \<in> fst ` set al" by auto
    with Cons.IH False show ?thesis by simp
  qed
qed

lemma set_alist_delete: "set (AList.delete k al) \<subseteq> set al"
  by (auto simp add: AList.delete_eq)

lemma key_inv_mono: "A \<subseteq> B \<Longrightarrow> key_inv kl s A \<Longrightarrow> key_inv kl s B"
  unfolding key_inv_def by (auto 4 3)

lemma key_inv_pool [simp]: "key_inv kl (s\<lparr>buffer_pool := x\<rparr>) A = key_inv kl s A"
  by (simp add: key_inv_def)

lemma key_inv_empty: "key_inv kl (empty_store path kl n) A"
  by (simp add: key_inv_def empty_store_def)

lemma key_inv_append:
  assumes "key_inv kl s A"
  shows "key_inv kl (append P s d ub) (insert (doc_id P d) A)"
proof -
  let ?s1 = "append P s d ub"
  from assms have kl: "key_length s = kl"
    and K: "set (map fst (header_map s)) \<subseteq> A \<union> np_str kl ` A"
    and F: "fst ` set (header_file s) \<subseteq> np_str kl ` A"
    and O: "\<forall>e \<in> set (header_map s). 0 \<le> fst (snd e) \<and> nat (fst (snd e)) < length (header_file s)"
    and L: "length (header_map s) \<le> length (header_file s)"
    by (simp_all add: key_inv_def)
  have 1: "key_length ?s1 = kl" by (simp add: append_key_length kl)
  have 2: "set (map fst (header_map ?s1)) \<subseteq> insert (doc_id P d) A \<union> np_str kl ` insert (doc_id P d) A"
    using K AList.dom_update [of "doc_id P d" _ "header_map s"]
    by (auto simp add: append_header_map)
  have 3: "fst ` set (header_file ?s1) \<subseteq> np_str kl ` insert (doc_id P d) A"
    using F by (auto simp add: append_header_file kl)
  have 4: "\<forall>e \<in> set (header_map ?s1). 0 \<le> fst (snd e) \<and> nat (fst (snd e)) < length (header_file ?s1)"
  proof
    fix e assume "e \<in> set (header_map ?s1)"
    then have "e = (doc_id P d, len s, int_truediv (start s) (PAGE_SIZE P) * PAGE_SIZE P,
        start s mod PAGE_SIZE P, start s mod PAGE_SIZE P + int (length (binary_str P d)))
        \<or> e \<in> set (header_map s)"
      using set_alist_update [of "doc_id P d"
          "(len s, int_truediv (start s) (PAGE_SIZE P) * PAGE_SIZE P,
            start s mod PAGE_SIZE P, start s mod PAGE_SIZE P + int (length (binary_str P d)))"
          "header_map s"]
      unfolding append_header_map by blast
    then show "0 \<le> fst (snd e) \<and> nat (fst (snd e)) < length (header_file ?s1)"
      using O L by (auto simp add: append_header_file len_def)
  qed
  have 5: "length (header_map ?s1) \<le> length (header_file ?s1)"
    unfolding append_header_map append_header_file using L
    by (intro order_trans [OF length_alist_update]) simp
  show ?thesis
    unfolding key_inv_def using 1 2 3 4 5 by blast
qed

lemma key_inv_extend:
  "key_inv kl s A \<Longrightarrow> key_inv kl (extend P s ds) (A \<union> doc_id P ` set ds)"
proof (induction ds arbitrary: s A)
  case Nil
  then show ?case by simp
next
  case (Cons d ds)
  have "key_inv kl (append P s d True) (insert (doc_id P d) A)"
    by (rule key_inv_append [OF Cons.prems])
  then have "key_inv kl (extend P (append P s d True
      \<lparr>buffer_pool := add_or_update (doc_id P d) d (buffer_pool (append P s d True))\<rparr>) ds)
      (insert (doc_id P d) A \<union> doc_id P ` set ds)"
    by (intro Cons.IH) simp
  then show ?case by (simp add: Let_def)
qed

lemma key_inv_del_doc:
  assumes "key_inv kl s A" and "0 \<le> idx" and "nat idx < length (header_file s)"
    and "del_doc s idx k = Inr s1"
  shows "key_inv kl s1 A"
proof -
  from assms(1) have kl: "key_length s = kl"
    and K: "set (map fst (header_map s)) \<subseteq> A \<union> np_str kl ` A"
    and F: "fst ` set (header_file s) \<subseteq> np_str kl ` A"
    and O: "\<forall>e \<in> set (header_map s). 0 \<le> fst (snd e) \<and> nat (fst (snd e)) < length (header_file s)"
    and L: "length (header_map s) \<le> length (header_file s)"
    by (simp_all add: key_inv_def)
  from assms(4) have k: "k \<in> set (map fst (header_map s))"
    and s1: "s1 = s\<lparr>
        header_file := header_write_at (header_file s) (nat idx) (np_str (key_length s) k, - 1, - 1, - 1),
        header_map := AList.delete k (header_map s),
        buffer_pool := delete_if_exists k (buffer_pool s)\<rparr>"
    by (auto simp add: del_doc_def split: if_splits)
  have hf: "header_file s1 = (header_file s)[nat idx := (np_str kl k, - 1, - 1, - 1)]"
    using assms(3) by (simp add: s1 header_write_at_def kl)
  have "np_str kl k \<in> np_str kl ` A"
    using k K by (auto simp add: np_str_idem)
  then have "fst ` insert (np_str kl k, - 1, - 1, - 1) (set (header_file s)) \<subseteq> np_str kl ` A"
    using F by simp
  then have 3: "fst ` set (header_file s1) \<subseteq> np_str kl ` A"
    using set_update_subset_insert [of "header_file s" "nat idx" "(np_str kl k, - 1, - 1, - 1)"]
    unfolding hf by (meson image_mono subset_trans)
  have 2: "set (map fst (header_map s1)) \<subseteq> A \<union> np_str kl ` A"
    using K set_alist_delete [of k "header_map s"] by (auto simp add: s1)
  have 4: "\<forall>e \<in> set (header_map s1). 0 \<le> fst (snd e) \<and> nat (fst (snd e)) < length (header_file s1)"
    using O set_alist_delete [of k "header_map s"] unfolding hf by (auto simp add: s1)
  have 5: "length (header_map s1) \<le> length (header_file s1)"
    using L AList.length_delete_le [of k "header_map s"] unfolding hf by (simp add: s1)
  have 1: "key_length s1 = kl" by (simp add: s1 kl)
  show ?thesis
    unfolding key_inv_def using 1 2 3 4 5 by blast
qed

lemma key_inv_del_docs:
  "key_inv kl s A \<Longrightarrow> del_docs s is = Inr s1 \<Longrightarrow> key_inv kl s1 A"
proof (induction "is" arbitrary: s)
  case Nil
  then show ?case by simp
next
  case (Cons i "is")
  from Cons.prems(2) obtain k s2 where k: "int2str_id s i = Inr k"
    and d: "del_doc s i k = Inr s2" and r: "del_docs s2 is = Inr s1"
    by (auto split: sum.splits)
  from k have "0 \<le> i" "nat i < length (header_file s)"
    by (auto simp add: int2str_id_def split: if_splits)
  then have "key_inv kl s2 A"
    using key_inv_del_doc [OF Cons.prems(1) _ _ d] by blast
  then show ?case using Cons.IH r by blast
qed

lemma key_inv_delitem:
  assumes "key_inv kl s A" and "delitem s k = Inr s1"
  shows "key_inv kl s1 A"
proof (cases k)
  case (Int_key i)
  with assms(2) obtain key where k: "int2str_id s i = Inr key" and d: "del_doc s i key = Inr s1"
    by (auto simp add: delitem_def split: sum.splits)
  from k have "0 \<le> i" "nat i < length (header_file s)"
    by (auto simp add: int2str_id_def split: if_splits)
  then show ?thesis using key_inv_del_doc [OF assms(1) _ _ d] by blast
next
  case (Str_key key)
  with assms(2) obtain v where v: "map_of (header_map s) key = Some v"
    and d: "del_doc s (fst v) key = Inr s1"
    by (auto simp add: delitem_def str2int_id_def split: option.splits)
  from v have "(key, v) \<in> set (header_map s)" by (rule map_of_SomeD)
  with assms(1) have "0 \<le> fst v" "nat (fst v) < length (header_file s)"
    by (auto simp add: key_inv_def)
  then show ?thesis using key_inv_del_doc [OF assms(1) _ _ d] by blast
next
  case (Slice_key sl)
  with assms show ?thesis
    by (auto simp add: delitem_def intro: key_inv_del_docs)
next
  case Other_key
  with assms show ?thesis by (simp add: delitem_def)
qed

lemma load_entries_mem:
  "e \<in> set (load_entries i rs m) \<Longrightarrow>
     e \<in> set m \<or>
     (\<exists>j < length rs. fst e = fst (rs ! j) \<and> fst (snd e) = int (i + j)
        \<and> snd (snd e) = snd (rs ! j) \<and> \<not> is_tombstone (rs ! j))"
proof (induction rs arbitrary: i m)
  case Nil
  then show ?case by simp
next
  case (Cons r rs)
  let ?v = "(int i, fst (snd r), fst (snd (snd r)), snd (snd (snd r)))"
  let ?m = "if is_tombstone r then m else AList.update (fst r) ?v m"
  from Cons.prems have "e \<in> set (load_entries (Suc i) rs ?m)" by simp
  from Cons.IH [OF this] consider "e \<in> set ?m"
    | j where "j < length rs" "fst e = fst (rs ! j)" "fst (snd e) = int (Suc i + j)"
        "snd (snd e) = snd (rs ! j)" "\<not> is_tombstone (rs ! j)"
    by blast
  then show ?case
  proof cases
    case 1
    show ?thesis
    proof (cases "e \<in> set m")
      case True
      then show ?thesis by simp
    next
      case False
      with 1 have nt: "\<not> is_tombstone r" and "e \<in> set (AList.update (fst r) ?v m)"
        by (auto split: if_splits)
      with False have "e = (fst r, ?v)"
        using set_alist_update [of "fst r" ?v m] by blast
      then have "fst e = fst ((r # rs) ! 0) \<and> fst (snd e) = int (i + 0)
          \<and> snd (snd e) = snd ((r # rs) ! 0) \<and> \<not> is_tombstone ((r # rs) ! 0)"
        using nt by simp
      then show ?thesis by blast
    qed
  next
    case 2
    then have "Suc j < length (r # rs) \<and> fst e = fst ((r # rs) ! Suc j)
        \<and> fst (snd e) = int (i + Suc j)
        \<and> snd (snd e) = snd ((r # rs) ! Suc j) \<and> \<not> is_tombstone ((r # rs) ! Suc j)"
      by simp
    then show ?thesis by blast
  qed
qed

lemma length_load_entries: "length (load_entries i rs m) \<le> length m + length rs"
proof (induction rs arbitrary: i m)
  case Nil
  then show ?case by simp
next
  case (Cons r rs)
  let ?v = "(int i, fst (snd r), fst (snd (snd r)), snd (snd (snd r)))"
  have "length (load_entries (Suc i) rs (AList.update (fst r) ?v m))
      \<le> length (AList.update (fst r) ?v m) + length rs"
    by (rule Cons.IH)
  also have "\<dots> \<le> Suc (length m) + length rs"
    using length_alist_update [of "fst r" ?v m] by simp
  finally have a: "length (load_entries (Suc i) rs (AList.update (fst r) ?v m))
      \<le> length m + length (r # rs)" by simp
  have "length (load_entries (Suc i) rs m) \<le> length m + length rs"
    by (rule Cons.IH)
  then have b: "length (load_entries (Suc i) rs m) \<le> length m + length (r # rs)" by simp
  show ?case using a b by simp
qed

lemma key_inv_load:
  assumes "key_length s = kl" and "fst ` set (header_file s) \<subseteq> np_str kl ` A"
    and "load_header_body s mode = Inr s1"
  shows "key_inv kl s1 A"
proof -
  define tmp where "tmp = (if truncating mode then [] else header_file s)"
  from assms(3) have hf: "header_file s1 = tmp" and hm: "header_map s1 = load_entries 0 tmp []"
    and kl: "key_length s1 = key_length s"
    by (auto simp add: load_header_body_def Let_def tmp_def split: if_splits)
  have F: "fst ` set tmp \<subseteq> np_str kl ` A"
    using assms(2) by (simp add: tmp_def)
  have mem: "\<exists>j < length tmp. fst e = fst (tmp ! j) \<and> fst (snd e) = int j"
    if "e \<in> set (load_entries 0 tmp [])" for e
    using load_entries_mem [OF that] by auto
  have 2: "set (map fst (header_map s1)) \<subseteq> A \<union> np_str kl ` A"
  proof
    fix k assume "k \<in> set (map fst (header_map s1))"
    then obtain e where "e \<in> set (load_entries 0 tmp [])" "k = fst e"
      unfolding hm by auto
    with mem obtain j where "j < length tmp" "k = fst (tmp ! j)" by metis
    then have "k \<in> fst ` set tmp" by (metis imageI nth_mem)
    with F show "k \<in> A \<union> np_str kl ` A" by blast
  qed
  have 4: "\<forall>e \<in> set (header_map s1). 0 \<le> fst (snd e) \<and> nat (fst (snd e)) < length (header_file s1)"
    unfolding hm hf using mem by fastforce
  have 5: "length (header_map s1) \<le> length (header_file s1)"
    unfolding hm hf using length_load_entries [of 0 tmp "[]"] by simp
  show ?thesis
    unfolding key_inv_def using assms(1) kl 2 F 4 5 hf by simp
qed

lemma key_inv_reload:
  assumes "key_length s = kl" and "fst ` set (header_file s) \<subseteq> np_str kl ` A"
    and "reload s = Inr s1"
  shows "key_inv kl s1 A"
proof -
  from assms(3) obtain s2 where "load_header_body s ''a'' = Inr s2"
    and s1: "s1 = s2\<lparr>buffer_pool := pool_clear (buffer_pool s2)\<rparr>"
    by (auto simp add: reload_def split: sum.splits)
  then have "key_inv kl s2 A" using key_inv_load assms(1,2) by blast
  then show ?thesis by (simp add: s1)
qed

lemma key_inv_setitem:
  assumes "key_inv kl s A" and "setitem P s k d = Inr s1"
  shows "key_inv kl s1 (A \<union> set (appended_keys P s (Op_setitem k d)))"
proof (cases k)
  case (Str_key key)
  with assms(2) have "s1 = append P s (set_id P key d) True
      \<lparr>buffer_pool := add_or_update key (set_id P key d)
          (buffer_pool (append P s (set_id P key d) True))\<rparr>"
    by (simp add: setitem_def Let_def)
  then show ?thesis
    using key_inv_append [OF assms(1), of P "set_id P key d" True] Str_key by simp
next
  case (Slice_key x3)
  with assms show ?thesis by (simp add: setitem_def)
next
  case Other_key
  with assms show ?thesis by (simp add: setitem_def)
next
  case (Int_key i)
  define A1 where "A1 = append P s d True"
  define B where "B = insert (doc_id P d) A"
  have inv1: "key_inv kl A1 B"
    unfolding A1_def B_def by (rule key_inv_append [OF assms(1)])
  then have kl1: "key_length A1 = kl"
    and K1: "set (map fst (header_map A1)) \<subseteq> B \<union> np_str kl ` B"
    and F1: "fst ` set (header_file A1) \<subseteq> np_str kl ` B"
    and O1: "\<forall>e \<in> set (header_map A1). 0 \<le> fst (snd e) \<and> nat (fst (snd e)) < length (header_file A1)"
    and L1: "length (header_map A1) \<le> length (header_file A1)"
    by (simp_all add: key_inv_def)
  from assms(2) Int_key obtain old where rng: "0 \<le> i" "i < len s"
    and old: "int2str_id s i = Inr old"
    by (auto simp add: setitem_def split: if_splits sum.splits)
  obtain v where v: "map_of (header_map A1) (doc_id P d) = Some v"
    by (simp add: A1_def append_header_map AList.update_conv')
  then have vmem: "(doc_id P d, v) \<in> set (header_map A1)" by (rule map_of_SomeD)
  with O1 have vO: "0 \<le> fst v" "nat (fst v) < length (header_file A1)" by auto
  from vmem have idmem: "doc_id P d \<in> fst ` set (header_map A1)" by force
  define m2 where "m2 = AList.update old v (header_map A1)"
  define s3 where "s3 = A1\<lparr>header_map := m2, buffer_pool := add_or_update old d (buffer_pool A1)\<rparr>"
  from old have "old \<in> fst ` set (header_file s)"
    by (auto simp add: int2str_id_def split: if_splits)
  with assms(1) have oldB: "old \<in> np_str kl ` B"
    by (auto simp add: key_inv_def B_def)
  have K2: "set (map fst m2) \<subseteq> B \<union> np_str kl ` B"
    using K1 oldB AList.dom_update [of old v "header_map A1"] unfolding m2_def by auto
  have O2: "\<forall>e \<in> set m2. 0 \<le> fst (snd e) \<and> nat (fst (snd e)) < length (header_file A1)"
    using O1 vO set_alist_update [of old v "header_map A1"] unfolding m2_def by auto
  have Bset: "B = A \<union> set (appended_keys P s (Op_setitem k d))"
    by (simp add: B_def Int_key)
  show ?thesis
  proof (cases "old = doc_id P d")
    case True
    with assms(2) Int_key rng old v have s1: "s1 = s3"
      by (simp add: setitem_def Let_def A1_def [symmetric] s3_def m2_def)
    have "length m2 = length (header_map A1)"
      unfolding m2_def using True idmem by (simp add: length_alist_update_mem)
    with L1 have "length m2 \<le> length (header_file A1)" by simp
    with K2 O2 F1 kl1 have "key_inv kl s3 B"
      by (simp add: key_inv_def s3_def)
    then show ?thesis by (simp add: s1 Bset)
  next
    case False
    have m3: "map_of m2 (doc_id P d) = Some v"
      using False v by (simp add: m2_def AList.update_conv')
    then have in3: "doc_id P d \<in> set (map fst m2)"
      by (metis map_of_eq_None_iff option.distinct(1) set_map)
    define s4 where "s4 = s3\<lparr>
        header_file := (header_file A1)[nat (fst v) := (np_str kl (doc_id P d), - 1, - 1, - 1)],
        header_map := AList.delete (doc_id P d) m2,
        buffer_pool := delete_if_exists (doc_id P d) (buffer_pool s3)\<rparr>"
    have "delitem s3 (Str_key (doc_id P d)) = Inr s4"
      using m3 in3 vO
      by (simp add: delitem_def str2int_id_def del_doc_def s3_def s4_def header_write_at_def kl1)
    with assms(2) Int_key rng old False v
    have s1: "s1 = s4\<lparr>buffer_pool := delete_if_exists (doc_id P d) (buffer_pool s4)\<rparr>"
      by (simp add: setitem_def Let_def A1_def [symmetric] s3_def m2_def)
    have K4: "set (map fst (header_map s4)) \<subseteq> B \<union> np_str kl ` B"
      using K2 set_alist_delete [of "doc_id P d" m2] by (auto simp add: s4_def)
    have "fst ` insert (np_str kl (doc_id P d), - 1, - 1, - 1) (set (header_file A1))
        \<subseteq> np_str kl ` B"
      using F1 by (simp add: B_def)
    then have F4: "fst ` set (header_file s4) \<subseteq> np_str kl ` B"
      using set_update_subset_insert [of "header_file A1" "nat (fst v)"
          "(np_str kl (doc_id P d), - 1, - 1, - 1)"]
      unfolding s4_def by (simp, meson image_mono subset_trans)
    have O4: "\<forall>e \<in> set (header_map s4). 0 \<le> fst (snd e) \<and> nat (fst (snd e)) < length (header_file s4)"
      using O2 set_alist_delete [of "doc_id P d" m2] by (auto simp add: s4_def)
    have "length (AList.delete (doc_id P d) m2) < length m2"
      using in3 by (intro length_alist_delete_mem) simp
    moreover have "length m2 \<le> Suc (length (header_map A1))"
      unfolding m2_def by (rule length_alist_update)
    ultimately have L4: "length (header_map s4) \<le> length (header_file s4)"
      using L1 by (simp add: s4_def)
    have "key_length s4 = kl" by (simp add: s4_def s3_def kl1)
    with K4 F4 O4 L4 have "key_inv kl s4 B"
      by (simp add: key_inv_def)
    then show ?thesis by (simp add: s1 Bset)
  qed
qed

lemma extend_key_length: "key_length (extend P s ds) = key_length s"
  by (induction ds arbitrary: s) (simp_all add: Let_def append_key_length)

lemma key_inv_prune:
  assumes "key_inv kl s A" and "prune P tdir s = Inr s1"
  shows "key_inv kl s1 (A \<union> set (appended_keys P s (Op_prune tdir)))"
proof -
  from assms(1) have kl: "key_length s = kl" by (simp add: key_inv_def)
  from assms(2) obtain ds dam1 where ds: "iter P s = Inr ds"
    and dam1: "reload (extend P (empty_store tdir kl 1000) ds) = Inr dam1"
    and s1: "reload (s\<lparr>header_file := header_file dam1, body_file := body_file dam1\<rparr>) = Inr s1"
    by (auto simp add: prune_def init_empty kl split: sum.splits)
  define B where "B = doc_id P ` set ds"
  have "key_inv kl (extend P (empty_store tdir kl 1000) ds) ({} \<union> B)"
    unfolding B_def by (intro key_inv_extend key_inv_empty)
  then have "key_length (extend P (empty_store tdir kl 1000) ds) = kl"
    and "fst ` set (header_file (extend P (empty_store tdir kl 1000) ds)) \<subseteq> np_str kl ` B"
    by (simp_all add: key_inv_def)
  from key_inv_reload [OF this dam1] have "fst ` set (header_file dam1) \<subseteq> np_str kl ` B"
    by (simp add: key_inv_def)
  then have "key_inv kl s1 B"
    using key_inv_reload [OF _ _ s1, of kl B] kl by simp
  then have "key_inv kl s1 (A \<union> B)"
    by (rule key_inv_mono [rotated]) simp
  then show ?thesis by (simp add: ds B_def)
qed

lemma key_inv_run_op:
  assumes "key_inv kl s A" and "run_op P s x = Inr s1"
  shows "key_inv kl s1 (A \<union> set (appended_keys P s x))"
proof (cases x)
  case (Op_append d ub)
  with assms show ?thesis using key_inv_append [of kl s A P d ub] by auto
next
  case (Op_extend ds)
  with assms show ?thesis using key_inv_extend [of kl s A P ds] by auto
next
  case (Op_setitem k d)
  with assms show ?thesis using key_inv_setitem by auto
next
  case (Op_delitem k)
  with assms show ?thesis using key_inv_delitem by auto
next
  case Op_reload
  with assms show ?thesis using key_inv_reload [of s kl A s1] by (auto simp add: key_inv_def)
next
  case Op_clear
  with assms show ?thesis
    using key_inv_load [of s kl A "''wb''" s1] by (auto simp add: key_inv_def clear_def)
next
  case (Op_prune tdir)
  with assms(2) have "prune P tdir s = Inr s1" by simp
  from key_inv_prune [OF assms(1) this] show ?thesis by (simp only: Op_prune)
qed

lemma key_inv_run:
  "key_inv kl s (set A) \<Longrightarrow> run P (s, A) xs = Inr (t, B) \<Longrightarrow> key_inv kl t (set B)"
proof (induction xs arbitrary: s A)
  case Nil
  then show ?case by simp
next
  case (Cons x xs)
  from Cons.prems(2) obtain s1 where s1: "run_op P s x = Inr s1"
    and r: "run P (s1, A @ appended_keys P s x) xs = Inr (t, B)"
    by (auto split: sum.splits)
  have "key_inv kl s1 (set (A @ appended_keys P s x))"
    using key_inv_run_op [OF Cons.prems(1) s1] by simp
  then show ?case using Cons.IH r by blast
qed

lemma nth_header_write_at:
  "j \<noteq> i \<Longrightarrow> j < length f \<Longrightarrow> header_write_at f i e ! j = f ! j"
  by (simp add: header_write_at_def nth_append)

text \<open>
  C7, as the code has it. Deleting a live key (whose ordinal is a slot number, so not
  negative) removes the key from the header index and leaves every other key's entry, the
  body file, the write cursor and the body position unchanged; in the header file only
  the slot numbered by the key's ordinal is rewritten. After any history of a new store,
  every key of the header index is a key ever appended, either as it was given or as the
  key field of the header file holds it (cut to \<open>key_length\<close> characters, NUL characters
  at the end dropped).
\<close>

theorem tombstone_frame_and_index_keys:
  "(map_of (header_map self) k = Some (idx, p, r, e) \<and> 0 \<le> idx \<longrightarrow>
      (\<exists>s. delitem self (Str_key k) = Inr s
         \<and> map_of (header_map s) k = None
         \<and> (\<forall>k'. k' \<noteq> k \<longrightarrow> map_of (header_map s) k' = map_of (header_map self) k')
         \<and> body_file s = body_file self
         \<and> start s = start self
         \<and> body_pos s = body_pos self
         \<and> (\<forall>j. j \<noteq> nat idx \<and> j < length (header_file self) \<longrightarrow>
               header_file s ! j = header_file self ! j)))
   \<and> (run P (empty_store path kl n, []) ops = Inr (t, A) \<longrightarrow>
        set (map fst (header_map t)) \<subseteq> set A \<union> np_str kl ` set A)"
proof (intro conjI impI)
  assume a: "map_of (header_map self) k = Some (idx, p, r, e) \<and> 0 \<le> idx"
  then have k: "k \<in> set (map fst (header_map self))"
    by (metis map_of_eq_None_iff option.distinct(1) set_map)
  define s where "s = self\<lparr>
        header_file := header_write_at (header_file self) (nat idx)
                         (np_str (key_length self) k, - 1, - 1, - 1),
        header_map := AList.delete k (header_map self),
        buffer_pool := delete_if_exists k (buffer_pool self)\<rparr>"
  have "delitem self (Str_key k) = Inr s"
    using a k by (simp add: delitem_def str2int_id_def del_doc_def s_def)
  moreover have "map_of (header_map s) k = None"
    by (simp add: s_def AList.delete_conv')
  moreover have "\<forall>k'. k' \<noteq> k \<longrightarrow> map_of (header_map s) k' = map_of (header_map self) k'"
    by (simp add: s_def AList.delete_conv')
  moreover have "body_file s = body_file self" "start s = start self" "body_pos s = body_pos self"
    by (simp_all add: s_def)
  moreover have "\<forall>j. j \<noteq> nat idx \<and> j < length (header_file self) \<longrightarrow>
      header_file s ! j = header_file self ! j"
    by (simp add: s_def nth_header_write_at)
  ultimately show "\<exists>s. delitem self (Str_key k) = Inr s
         \<and> map_of (header_map s) k = None
         \<and> (\<forall>k'. k' \<noteq> k \<longrightarrow> map_of (header_map s) k' = map_of (header_map self) k')
         \<and> body_file s = body_file self
         \<and> start s = start self
         \<and> body_pos s = body_pos self
         \<and> (\<forall>j. j \<noteq> nat idx \<and> j < length (header_file self) \<longrightarrow>
               header_file s ! j = header_file self ! j)"
    by blast
next
  assume "run P (empty_store path kl n, []) ops = Inr (t, A)"
  then have "key_inv kl t (set A)"
    by (rule key_inv_run [OF key_inv_empty])
  then show "set (map fst (header_map t)) \<subseteq> set A \<union> np_str kl ` set A"
    by (simp add: key_inv_def)
qed

theorem tombstone_frame_and_index_keys_witness:
  "(\<exists>s. delitem (append ex_P ex_store doc_a True) (Str_key ''a'') = Inr s
        \<and> map_of (header_map s) ''a'' = None
        \<and> body_file s = body_file (append ex_P ex_store doc_a True)
        \<and> start s = 8)
   \<and> (\<exists>t A. run ex_P (ex_store, []) ex_history = Inr (t, A)
        \<and> set (map fst (header_map t)) \<subseteq> set A \<union> np_str 36 ` set A)"
proof -
  have h: "map_of (header_map (append ex_P ex_store doc_a True)) ''a'' = Some (0, 0, 0, 8) \<and> (0::int) \<le> 0"
    "start (append ex_P ex_store doc_a True) = 8"
    by code_simp+
  have "\<not> isl (run ex_P (ex_store, []) ex_history)"
    by code_simp
  then obtain t A where t: "run ex_P (empty_store ''tmp'' 36 1000, []) ex_history = Inr (t, A)"
    unfolding ex_store_def by (cases "run ex_P (empty_store ''tmp'' 36 1000, []) ex_history") auto
  from tombstone_frame_and_index_keys [where self = "append ex_P ex_store doc_a True"
      and k = "''a''" and idx = 0 and p = 0 and r = 0 and e = 8, THEN conjunct1] h
    tombstone_frame_and_index_keys [where P = ex_P and path = "''tmp''" and kl = 36 and n = 1000
      and ops = ex_history and t = t and A = A, THEN conjunct2] t
  show ?thesis
    unfolding ex_store_def [symmetric] by (auto simp add: ex_store_def)
qed

text \<open>
  The claim as stated fails when a key is longer than the key field: with
  \<open>key_length = 1\<close>, a record with key \<open>ab\<close> is appended and the store reloaded; the
  header index then holds the key \<open>a\<close>, which was never appended.
\<close>

theorem index_keys_counterexample:
  "map_sum id (\<lambda>(t, A). (map fst (header_map t), A))
     (run (example_platform 8 2) (empty_store ''tmp'' 1 1000, []) [Op_append [97, 98, 1] True, Op_reload])
    = Inr ([''a''], [''ab''])
   \<and> ''a'' \<notin> set [''ab'']"
  by code_simp

section \<open>Compaction\<close>

lemma payload_bytes_simps [simp]:
  "payload_bytes P [] = []"
  "payload_bytes P (d # ds) = binary_str P d @ payload_bytes P ds"
  by (simp_all add: payload_bytes_def)

lemma payload_bytes_append [simp]:
  "payload_bytes P (xs @ ys) = payload_bytes P xs @ payload_bytes P ys"
  by (simp add: payload_bytes_def)

lemma page_split: "0 \<le> a \<Longrightarrow> 0 < b \<Longrightarrow> int_truediv a b * b + a mod b = a"
  by (simp add: int_truediv_nonneg)

lemma file_write_at_end: "file_write f (length f) v = f @ v"
  by (simp add: file_write_def)

lemma extend_files:
  assumes "0 < PAGE_SIZE P"
  shows "start s = int (length (body_file s)) \<Longrightarrow> body_pos s = start s \<Longrightarrow>
     header_file (extend P s ds) = header_file s @ layout P (key_length s) (start s) ds
     \<and> body_file (extend P s ds) = body_file s @ payload_bytes P ds
     \<and> start (extend P s ds) = int (length (body_file (extend P s ds)))
     \<and> body_pos (extend P s ds) = start (extend P s ds)"
proof (induction ds arbitrary: s)
  case Nil
  then show ?case by simp
next
  case (Cons d ds)
  define s1 where "s1 = append P s d True
      \<lparr>buffer_pool := add_or_update (doc_id P d) d (buffer_pool (append P s d True))\<rparr>"
  have nn: "0 \<le> start s" using Cons.prems by simp
  have b1: "body_file s1 = body_file s @ binary_str P d"
    using Cons.prems by (simp add: s1_def append_body_file file_write_at_end)
  have st1: "start s1 = start s + int (length (binary_str P d))"
    using page_split [OF nn assms] by (simp add: s1_def append_start)
  have p1: "body_pos s1 = start s1"
    using Cons.prems st1 by (simp add: s1_def append_body_pos)
  have h1: "header_file s1 = header_file s @ [hd (layout P (key_length s) (start s) [d])]"
    by (simp add: s1_def append_header_file)
  have k1: "key_length s1 = key_length s"
    by (simp add: s1_def append_key_length)
  have "start s1 = int (length (body_file s1))"
    using Cons.prems st1 b1 by simp
  from Cons.IH [OF this p1] show ?case
    by (simp add: Let_def s1_def [symmetric] h1 k1 b1 st1)
qed

lemma alist_update_new: "k \<notin> fst ` set al \<Longrightarrow> AList.update k v al = al @ [(k, v)]"
  by (induction al) auto

lemma load_entries_distinct:
  "distinct (map fst rs) \<Longrightarrow> \<forall>r \<in> set rs. \<not> is_tombstone r \<Longrightarrow>
   fst ` set m \<inter> fst ` set rs = {} \<Longrightarrow>
   load_entries i rs m = m @ map (\<lambda>(j, r). (fst r, int j, snd r)) (enumerate i rs)"
proof (induction rs arbitrary: i m)
  case Nil
  then show ?case by simp
next
  case (Cons r rs)
  let ?v = "(int i, fst (snd r), fst (snd (snd r)), snd (snd (snd r)))"
  have new: "fst r \<notin> fst ` set m" using Cons.prems(3) by auto
  have "fst ` set (m @ [(fst r, ?v)]) \<inter> fst ` set rs = {}"
    using Cons.prems(1,3) by auto
  then have "load_entries (Suc i) rs (m @ [(fst r, ?v)]) =
      (m @ [(fst r, ?v)]) @ map (\<lambda>(j, r). (fst r, int j, snd r)) (enumerate (Suc i) rs)"
    using Cons.prems(1,2) by (intro Cons.IH) simp_all
  then show ?case
    using Cons.prems(2) new by (simp add: alist_update_new)
qed

lemma collect_length: "collect f xs = Inr ys \<Longrightarrow> length ys = length xs"
  by (induction xs arbitrary: ys) (auto split: sum.splits)

lemma collect_all2: "list_all2 (\<lambda>x y. f x = Inr y) xs ys \<Longrightarrow> collect f xs = Inr ys"
  by (induction xs ys rule: list_all2_induct) simp_all

lemma collect_nth: "collect f xs = Inr ys \<Longrightarrow> i < length xs \<Longrightarrow> f (xs ! i) = Inr (ys ! i)"
proof (induction xs arbitrary: ys i)
  case Nil
  then show ?case by simp
next
  case (Cons x xs)
  then show ?case by (cases i) (auto split: sum.splits)
qed

lemma length_layout [simp]: "length (layout P kl a ds) = length ds"
  by (induction ds arbitrary: a) simp_all

lemma map_fst_layout: "map fst (layout P kl a ds) = map (\<lambda>d. np_str kl (doc_id P d)) ds"
  by (induction ds arbitrary: a) simp_all

lemma nth_layout:
  "i < length ds \<Longrightarrow>
   layout P kl a ds ! i =
     (let b = a + int (length (payload_bytes P (take i ds)))
      in (np_str kl (doc_id P (ds ! i)), int_truediv b (PAGE_SIZE P) * PAGE_SIZE P,
          b mod PAGE_SIZE P, b mod PAGE_SIZE P + int (length (binary_str P (ds ! i)))))"
proof (induction ds arbitrary: a i)
  case Nil
  then show ?case by simp
next
  case (Cons d ds)
  show ?case
  proof (cases i)
    case 0
    then show ?thesis by simp
  next
    case (Suc j)
    with Cons.prems have "j < length ds" by simp
    from Cons.IH [OF this, of "a + int (length (binary_str P d))"] show ?thesis
      by (simp add: Suc Let_def add.assoc)
  qed
qed

lemma read_back:
  assumes "0 < ps" and "body = pre @ v @ post" and "a = int (length pre)" and "v \<noteq> []"
  shows "\<exists>m. mmap_read ps body (int_truediv a ps * ps) (a mod ps + int (length v)) = Inr m
           \<and> py_slice_from m (a mod ps) = v"
proof -
  define p where "p = int_truediv a ps * ps"
  define r where "r = a mod ps"
  define l where "l = int (length v)"
  have a0: "0 \<le> a" using assms(3) by simp
  have pr: "p + r = a" unfolding p_def r_def by (rule page_split [OF a0 assms(1)])
  have r0: "0 \<le> r" using assms(1) by (simp add: r_def)
  have p0: "0 \<le> p" using a0 assms(1)
    by (simp add: p_def int_truediv_nonneg pos_imp_zdiv_nonneg_iff)
  have l0: "0 < l" using assms(4) by (simp add: l_def)
  have pm: "p mod ps = 0" by (simp add: p_def)
  have sz: "int (length body) = a + l + int (length post)"
    by (simp add: assms(2,3) l_def)
  have m: "mmap_read ps body p (r + l) = Inr (take (nat (r + l)) (drop (nat p) body))"
    using p0 r0 l0 pm sz pr by (simp add: mmap_read_def Let_def)
  have np: "nat p + nat r = length pre"
    using pr p0 r0 assms(3) by linarith
  have "py_slice_from (take (nat (r + l)) (drop (nat p) body)) r
      = drop (nat r) (take (nat (r + l)) (drop (nat p) body))"
    using r0 by (simp add: py_slice_from_def)
  also have "\<dots> = take (nat (r + l) - nat r) (drop (nat r) (drop (nat p) body))"
    by (simp add: drop_take)
  also have "nat (r + l) - nat r = length v"
    using r0 l0 by (simp add: l_def)
  also have "drop (nat r) (drop (nat p) body) = v @ post"
    using np by (simp add: assms(2) add.commute)
  finally have "py_slice_from (take (nat (r + l)) (drop (nat p) body)) r = v"
    by simp
  with m show ?thesis
    unfolding p_def r_def l_def by blast
qed

lemma layout_live:
  "0 \<le> a \<Longrightarrow> 0 < PAGE_SIZE P \<Longrightarrow> \<forall>r \<in> set (layout P kl a ds). \<not> is_tombstone r"
proof (induction ds arbitrary: a)
  case Nil
  then show ?case by simp
next
  case (Cons d ds)
  have "0 \<le> int_truediv a (PAGE_SIZE P) * PAGE_SIZE P"
    using Cons.prems by (simp add: int_truediv_nonneg pos_imp_zdiv_nonneg_iff)
  then have "\<not> is_tombstone (np_str kl (doc_id P d), int_truediv a (PAGE_SIZE P) * PAGE_SIZE P,
      a mod PAGE_SIZE P, a mod PAGE_SIZE P + int (length (binary_str P d)))"
    by (auto simp add: is_tombstone_def HEADER_NONE_ENTRY_def)
  moreover have "\<forall>r \<in> set (layout P kl (a + int (length (binary_str P d))) ds). \<not> is_tombstone r"
    using Cons.prems by (intro Cons.IH) simp_all
  ultimately show ?case by simp
qed

lemma layout_last_sum:
  "ds \<noteq> [] \<Longrightarrow> 0 \<le> a \<Longrightarrow> 0 < PAGE_SIZE P \<Longrightarrow>
   fst (snd (last (layout P kl a ds))) + snd (snd (snd (last (layout P kl a ds))))
     = a + int (length (payload_bytes P ds))"
proof (induction ds arbitrary: a)
  case Nil
  then show ?case by simp
next
  case (Cons d ds)
  show ?case
  proof (cases "ds = []")
    case True
    then show ?thesis
      using page_split [OF Cons.prems(2,3)] by simp
  next
    case False
    then have ne: "layout P kl (a + int (length (binary_str P d))) ds \<noteq> []"
      by (cases ds) simp_all
    have "0 \<le> a + int (length (binary_str P d))" using Cons.prems by simp
    from Cons.IH [OF False this Cons.prems(3)] ne show ?thesis
      by simp
  qed
qed

lemma map_of_enumerated:
  assumes "distinct (map fst hf)" and "i < length hf"
  shows "map_of (map (\<lambda>(j, r). (fst r, int j, snd r)) (enumerate 0 hf)) (fst (hf ! i))
           = Some (int i, snd (hf ! i))"
proof -
  have "map fst (map (\<lambda>(j, r). (fst r, int j, snd r)) (enumerate 0 hf))
      = map (fst \<circ> snd) (enumerate 0 hf)"
    by (simp add: case_prod_unfold comp_def)
  also have "\<dots> = map fst (map snd (enumerate 0 hf))"
    by (simp only: map_map)
  also have "\<dots> = map fst hf"
    by (simp only: map_snd_enumerate)
  finally have k: "map fst (map (\<lambda>(j, r). (fst r, int j, snd r)) (enumerate 0 hf)) = map fst hf" .
  have "(i, hf ! i) \<in> set (enumerate 0 hf)"
    using assms(2) by (simp add: in_set_enumerate_eq)
  then have mem: "(fst (hf ! i), int i, snd (hf ! i))
      \<in> set (map (\<lambda>(j, r). (fst r, int j, snd r)) (enumerate 0 hf))"
    by force
  have d: "distinct (map fst (map (\<lambda>(j, r). (fst r, int j, snd r)) (enumerate 0 hf)))"
    using assms(1) by (simp only: k)
  from mem show ?thesis
    by (simp only: map_of_eq_Some_iff [OF d])
qed

lemma reload_fields:
  assumes "reload x = Inr y"
  shows "header_file y = header_file x" and "body_file y = body_file x"
    and "key_length y = key_length x" and "header_map y = load_entries 0 (header_file x) []"
    and "buffer (buffer_pool y) = []"
    and "header_path y = header_path x" and "body_path y = body_path x"
  using assms
  by (auto simp add: reload_def load_header_body_def truncating_def Let_def pool_clear_def
      split: if_splits sum.splits)

lemma reload_ok:
  assumes "header_file x \<noteq> [] \<longrightarrow>
      0 \<le> int64_add (fst (snd (last (header_file x)))) (snd (snd (snd (last (header_file x)))))"
  shows "\<exists>y. reload x = Inr y"
  using assms
  by (cases "header_file x = []")
    (simp_all add: reload_def load_header_body_def truncating_def Let_def)

lemma prune_result:
  assumes ps: "0 < PAGE_SIZE P" and it: "iter P self = Inr ds"
    and dist: "distinct (map (\<lambda>d. np_str (key_length self) (doc_id P d)) ds)"
    and size: "int (length (payload_bytes P ds)) < 2 ^ 63"
  shows "\<exists>s. prune P tdir self = Inr s
     \<and> header_file s = layout P (key_length self) 0 ds
     \<and> body_file s = payload_bytes P ds
     \<and> header_map s =
         map (\<lambda>(j, r). (fst r, int j, snd r)) (enumerate 0 (layout P (key_length self) 0 ds))
     \<and> buffer (buffer_pool s) = []
     \<and> key_length s = key_length self
     \<and> header_path s = header_path self \<and> body_path s = body_path self"
proof -
  define kl where "kl = key_length self"
  define hf where "hf = layout P kl 0 ds"
  define D where "D = extend P (empty_store tdir kl 1000 :: 'a memmap) ds"
  have e0: "start (empty_store tdir kl 1000 :: 'a memmap)
        = int (length (body_file (empty_store tdir kl 1000 :: 'a memmap)))"
    "body_pos (empty_store tdir kl 1000 :: 'a memmap) = start (empty_store tdir kl 1000 :: 'a memmap)"
    by (simp_all add: empty_store_def)
  from extend_files [OF ps e0, of ds]
  have hfD: "header_file D = hf" and bD: "body_file D = payload_bytes P ds"
    by (simp_all add: D_def hf_def empty_store_def)
  have ok: "0 \<le> int64_add (fst (snd (last hf))) (snd (snd (snd (last hf))))" if "hf \<noteq> []"
  proof -
    from that have "ds \<noteq> []" by (auto simp add: hf_def)
    from layout_last_sum [OF this _ ps, of 0 kl]
    have "fst (snd (last hf)) + snd (snd (snd (last hf))) = int (length (payload_bytes P ds))"
      by (simp add: hf_def)
    then show ?thesis
      using size by (simp add: int64_add_in_range)
  qed
  have "\<exists>y. reload D = Inr y"
    by (rule reload_ok) (simp add: hfD ok)
  then obtain dam1 where dam1: "reload D = Inr dam1" ..
  note f1 = reload_fields [OF dam1]
  define x where "x = self\<lparr>header_file := header_file dam1, body_file := body_file dam1\<rparr>"
  have hfx: "header_file x = hf" and bx: "body_file x = payload_bytes P ds"
    by (simp_all add: x_def f1 hfD bD)
  have "\<exists>y. reload x = Inr y"
    by (rule reload_ok) (simp add: hfx ok)
  then obtain s where s: "reload x = Inr s" ..
  note f2 = reload_fields [OF s]
  have pr: "prune P tdir self = Inr s"
    using it dam1 s by (simp add: prune_def init_empty kl_def D_def x_def)
  have live: "\<forall>r \<in> set hf. \<not> is_tombstone r"
    unfolding hf_def by (rule layout_live [OF _ ps]) simp
  have dk: "distinct (map fst hf)"
    using dist by (simp add: hf_def map_fst_layout kl_def)
  have "load_entries 0 hf [] = [] @ map (\<lambda>(j, r). (fst r, int j, snd r)) (enumerate 0 hf)"
    by (rule load_entries_distinct [OF dk live]) simp
  then have hm: "header_map s = map (\<lambda>(j, r). (fst r, int j, snd r)) (enumerate 0 hf)"
    by (simp add: f2 hfx)
  have "key_length s = key_length self" "header_path s = header_path self"
    "body_path s = body_path self"
    by (simp_all add: f2 x_def)
  with pr hm show ?thesis
    by (simp add: f2 hfx bx hf_def kl_def)
qed

lemma read_after_prune:
  assumes ps: "0 < PAGE_SIZE P"
    and hf: "header_file s = layout P kl 0 ds" and b: "body_file s = payload_bytes P ds"
    and hm: "header_map s = map (\<lambda>(j, r). (fst r, int j, snd r)) (enumerate 0 (layout P kl 0 ds))"
    and pool: "buffer (buffer_pool s) = []"
    and dk: "distinct (map (\<lambda>d. np_str kl (doc_id P d)) ds)"
    and i: "i < length ds"
    and codec: "Document P (binary_str P (ds ! i)) = ds ! i" "binary_str P (ds ! i) \<noteq> []"
  shows "getitem_str P s (np_str kl (doc_id P (ds ! i))) = Inr (ds ! i)"
proof -
  define pre where "pre = payload_bytes P (take i ds)"
  define v where "v = binary_str P (ds ! i)"
  define post where "post = payload_bytes P (drop (Suc i) ds)"
  define a where "a = int (length pre)"
  let ?hf = "layout P kl 0 ds"
  have body: "body_file s = pre @ v @ post"
    unfolding b pre_def v_def post_def
    by (subst id_take_nth_drop [OF i]) simp
  have ent: "?hf ! i = (np_str kl (doc_id P (ds ! i)), int_truediv a (PAGE_SIZE P) * PAGE_SIZE P,
      a mod PAGE_SIZE P, a mod PAGE_SIZE P + int (length v))"
    using nth_layout [OF i, of P kl 0] by (simp add: Let_def a_def pre_def v_def)
  have "distinct (map fst ?hf)" using dk by (simp add: map_fst_layout)
  from map_of_enumerated [OF this, of i] i
  have mo: "map_of (header_map s) (np_str kl (doc_id P (ds ! i)))
      = Some (int i, int_truediv a (PAGE_SIZE P) * PAGE_SIZE P,
          a mod PAGE_SIZE P, a mod PAGE_SIZE P + int (length v))"
    by (simp add: hm ent)
  from read_back [OF ps body a_def] codec(2)
  obtain m where m: "mmap_read (PAGE_SIZE P) (body_file s)
        (int_truediv a (PAGE_SIZE P) * PAGE_SIZE P) (a mod PAGE_SIZE P + int (length v)) = Inr m"
    and sl: "py_slice_from m (a mod PAGE_SIZE P) = v"
    by (auto simp add: v_def)
  have "get_doc_by_key P s (np_str kl (doc_id P (ds ! i))) = Inr (Document P v)"
    by (simp add: get_doc_by_key_def mo m sl)
  then show ?thesis
    using pool codec(1) by (simp add: getitem_str_def pool_contains_def v_def)
qed

lemma ranges_cover:
  assumes "ranges_disjoint xs" and "ranges_within b xs"
  shows "finite (\<Union>x \<in> set xs. {fst x..<snd x})
     \<and> (\<Union>x \<in> set xs. {fst x..<snd x}) \<subseteq> {0..<b}
     \<and> int (card (\<Union>x \<in> set xs. {fst x..<snd x})) = (\<Sum>x\<leftarrow>xs. snd x - fst x)"
  using assms
proof (induction xs)
  case Nil
  then show ?case by simp
next
  case (Cons x xs)
  let ?U = "\<Union>y \<in> set xs. {fst y..<snd y}"
  from Cons.prems have d: "ranges_disjoint xs" and w: "ranges_within b xs"
    and x: "0 \<le> fst x" "fst x \<le> snd x" "snd x \<le> b"
    and sep: "\<forall>y \<in> set xs. snd x \<le> fst y \<or> snd y \<le> fst x"
    by (simp_all add: ranges_within_def)
  from Cons.IH [OF d w] have fin: "finite ?U" and sub: "?U \<subseteq> {0..<b}"
    and card: "int (card ?U) = (\<Sum>y\<leftarrow>xs. snd y - fst y)"
    by simp_all
  have disj: "{fst x..<snd x} \<inter> ?U = {}"
    using sep by fastforce
  have "card ({fst x..<snd x} \<union> ?U) = card {fst x..<snd x} + card ?U"
    by (rule card_Un_disjoint [OF _ fin disj]) simp
  then have "int (card ({fst x..<snd x} \<union> ?U)) = (snd x - fst x) + (\<Sum>y\<leftarrow>xs. snd y - fst y)"
    using x card by simp
  moreover have "{fst x..<snd x} \<union> ?U \<subseteq> {0..<b}"
    using sub x by auto
  ultimately show ?case
    using fin by simp
qed

lemma ranges_sum_le:
  assumes "ranges_disjoint xs" and "ranges_within b xs" and "0 \<le> b"
  shows "(\<Sum>x\<leftarrow>xs. snd x - fst x) \<le> b"
proof -
  let ?U = "\<Union>x \<in> set xs. {fst x..<snd x}"
  from ranges_cover [OF assms(1,2)] have sub: "?U \<subseteq> {0..<b}"
    and card: "int (card ?U) = (\<Sum>x\<leftarrow>xs. snd x - fst x)"
    by simp_all
  have "card ?U \<le> card {0..<b}"
    by (rule card_mono [OF _ sub]) simp
  then have "int (card ?U) \<le> b" using assms(3) by simp
  then show ?thesis by (simp only: card)
qed

lemma length_payload_bytes:
  "int (length (payload_bytes P ds)) = (\<Sum>d\<leftarrow>ds. int (length (binary_str P d)))"
  by (induction ds) simp_all

text \<open>
  What compaction does on a store in which every live key is readable, is the id of the
  record read under it and fits the key field of the header unchanged, and every such
  record decodes from its own non-empty encoding: \<open>prune\<close> succeeds, the live keys and
  the records that iterating yields stay the same, the compacted header holds one entry
  per live key and the compacted body the encodings of the records, one after the other.
  The size on disk does not grow when the store held at least one header entry per live
  key and its live entries named pairwise disjoint byte ranges of the body, each of the
  length of the encoding of its record. Sizes stay in the range where the float quotient
  of the source is exact.
\<close>

lemma prune_compacts:
  assumes ps: "0 < PAGE_SIZE P" and ps_exact: "PAGE_SIZE P < 2 ^ 53"
    and it: "iter P self = Inr ds"
    and ids: "map (doc_id P) ds = map fst (header_map self)"
    and dist: "distinct (map fst (header_map self))"
    and fit: "\<forall>k \<in> set (map fst (header_map self)). np_str (key_length self) k = k"
    and codec: "\<forall>d \<in> set ds. Document P (binary_str P d) = d \<and> binary_str P d \<noteq> []"
    and size: "int (length (payload_bytes P ds)) < 2 ^ 53"
  shows "\<exists>s. prune P tdir self = Inr s
     \<and> map fst (header_map s) = map fst (header_map self)
     \<and> iter P s = Inr ds
     \<and> disk_usage s =
          header_entry_size (key_length self) * int (length ds) + int (length (payload_bytes P ds))
     \<and> (length (header_map self) \<le> length (header_file self)
          \<and> ranges_disjoint (live_ranges self)
          \<and> ranges_within (int (length (body_file self))) (live_ranges self)
          \<and> map (\<lambda>d. int (length (binary_str P d))) ds = map (\<lambda>x. snd x - fst x) (live_ranges self)
          \<longrightarrow> disk_usage s \<le> disk_usage self)"
proof -
  define kl where "kl = key_length self"
  have nk: "map (\<lambda>d. np_str kl (doc_id P d)) ds = map fst (header_map self)"
  proof -
    have "map (\<lambda>d. np_str kl (doc_id P d)) ds = map (np_str kl) (map (doc_id P) ds)"
      by (simp only: map_map comp_def)
    also have "\<dots> = map (np_str kl) (map fst (header_map self))"
      by (simp only: ids)
    also have "\<dots> = map fst (header_map self)"
      using fit unfolding kl_def by (intro map_idI) auto
    finally show ?thesis .
  qed
  then have dk: "distinct (map (\<lambda>d. np_str kl (doc_id P d)) ds)"
    using dist by simp
  have size63: "int (length (payload_bytes P ds)) < 2 ^ 63"
    using size by simp
  from prune_result [OF ps it dk [unfolded kl_def] size63, of tdir]
  obtain s where pr: "prune P tdir self = Inr s"
    and hf: "header_file s = layout P kl 0 ds"
    and b: "body_file s = payload_bytes P ds"
    and hm: "header_map s = map (\<lambda>(j, r). (fst r, int j, snd r)) (enumerate 0 (layout P kl 0 ds))"
    and pool: "buffer (buffer_pool s) = []"
    and kls: "key_length s = kl"
    unfolding kl_def by blast
  have "map fst (header_map s) = map (fst \<circ> snd) (enumerate 0 (layout P kl 0 ds))"
    by (simp add: hm case_prod_unfold comp_def)
  also have "\<dots> = map fst (map snd (enumerate 0 (layout P kl 0 ds)))"
    by (simp only: map_map)
  also have "\<dots> = map fst (layout P kl 0 ds)"
    by (simp only: map_snd_enumerate)
  finally have keys: "map fst (header_map s) = map fst (header_map self)"
    by (simp add: map_fst_layout nk)
  have len: "length ds = length (header_map self)"
    using arg_cong [OF ids, of length] by simp
  have "list_all2 (\<lambda>k d. getitem_str P s k = Inr d) (map fst (header_map s)) ds"
  proof (rule list_all2_all_nthI)
    show "length (map fst (header_map s)) = length ds"
      by (simp add: keys len)
  next
    fix i assume "i < length (map fst (header_map s))"
    then have i: "i < length ds" by (simp add: keys len)
    then have "ds ! i \<in> set ds" by simp
    with codec have c: "Document P (binary_str P (ds ! i)) = ds ! i" "binary_str P (ds ! i) \<noteq> []"
      by simp_all
    have "map fst (header_map s) ! i = np_str kl (doc_id P (ds ! i))"
      using i by (simp add: keys flip: nk)
    with read_after_prune [OF ps hf b hm pool dk i c]
    show "getitem_str P s (map fst (header_map s) ! i) = Inr (ds ! i)"
      by simp
  qed
  then have it': "iter P s = Inr ds"
    unfolding iter_def by (rule collect_all2)
  have du: "disk_usage s = header_entry_size kl * int (length ds) + int (length (payload_bytes P ds))"
    by (simp add: disk_usage_def hf b kls)
  have le: "disk_usage s \<le> disk_usage self"
    if h: "length (header_map self) \<le> length (header_file self)
          \<and> ranges_disjoint (live_ranges self)
          \<and> ranges_within (int (length (body_file self))) (live_ranges self)
          \<and> map (\<lambda>d. int (length (binary_str P d))) ds = map (\<lambda>x. snd x - fst x) (live_ranges self)"
  proof -
    have "int (length (payload_bytes P ds)) = (\<Sum>x\<leftarrow>live_ranges self. snd x - fst x)"
      using h by (simp add: length_payload_bytes)
    also have "\<dots> \<le> int (length (body_file self))"
      using h by (intro ranges_sum_le) simp_all
    finally have 1: "int (length (payload_bytes P ds)) \<le> int (length (body_file self))" .
    have "0 \<le> header_entry_size kl" by (simp add: header_entry_size_def)
    moreover have "int (length ds) \<le> int (length (header_file self))"
      using h len by simp
    ultimately have "header_entry_size kl * int (length ds)
        \<le> header_entry_size kl * int (length (header_file self))"
      by (rule mult_left_mono [rotated])
    with 1 show ?thesis
      unfolding du by (simp add: disk_usage_def kl_def)
  qed
  from pr keys it' du le show ?thesis
    unfolding kl_def by blast
qed

lemma prune_compacts_example:
  "\<exists>s. prune ex_P ''t'' ex_deleted = Inr s
     \<and> map fst (header_map s) = [''a'', ''x'']
     \<and> iter ex_P s = Inr [doc_a, doc_x]
     \<and> disk_usage s = 348
     \<and> disk_usage s \<le> disk_usage ex_deleted"
proof -
  have h: "0 < PAGE_SIZE ex_P" "PAGE_SIZE ex_P < 2 ^ 53"
    "iter ex_P ex_deleted = Inr [doc_a, doc_x]"
    "map (doc_id ex_P) [doc_a, doc_x] = map fst (header_map ex_deleted)"
    "distinct (map fst (header_map ex_deleted))"
    "\<forall>k \<in> set (map fst (header_map ex_deleted)). np_str (key_length ex_deleted) k = k"
    "\<forall>d \<in> set [doc_a, doc_x]. Document ex_P (binary_str ex_P d) = d \<and> binary_str ex_P d \<noteq> []"
    "int (length (payload_bytes ex_P [doc_a, doc_x])) < 2 ^ 53"
    by code_simp+
  have g: "length (header_map ex_deleted) \<le> length (header_file ex_deleted)
      \<and> ranges_disjoint (live_ranges ex_deleted)
      \<and> ranges_within (int (length (body_file ex_deleted))) (live_ranges ex_deleted)
      \<and> map (\<lambda>d. int (length (binary_str ex_P d))) [doc_a, doc_x]
          = map (\<lambda>x. snd x - fst x) (live_ranges ex_deleted)"
    by code_simp
  have e: "map fst (header_map ex_deleted) = [''a'', ''x'']"
    "header_entry_size (key_length ex_deleted) * int (length [doc_a, doc_x])
       + int (length (payload_bytes ex_P [doc_a, doc_x])) = 348"
    by code_simp+
  from prune_compacts [OF h, of "''t''"]
  obtain s where 1: "prune ex_P ''t'' ex_deleted = Inr s"
    and 2: "map fst (header_map s) = map fst (header_map ex_deleted)"
    and 3: "iter ex_P s = Inr [doc_a, doc_x]"
    and 4: "disk_usage s =
          header_entry_size (key_length ex_deleted) * int (length [doc_a, doc_x])
            + int (length (payload_bytes ex_P [doc_a, doc_x]))"
    and 5: "length (header_map ex_deleted) \<le> length (header_file ex_deleted)
          \<and> ranges_disjoint (live_ranges ex_deleted)
          \<and> ranges_within (int (length (body_file ex_deleted))) (live_ranges ex_deleted)
          \<and> map (\<lambda>d. int (length (binary_str ex_P d))) [doc_a, doc_x]
              = map (\<lambda>x. snd x - fst x) (live_ranges ex_deleted)
          \<longrightarrow> disk_usage s \<le> disk_usage ex_deleted"
    by (elim exE conjE)
  from 5 g have 6: "disk_usage s \<le> disk_usage ex_deleted" by (rule mp)
  have 7: "map fst (header_map s) = [''a'', ''x'']" using 2 by (simp only: e)
  have 8: "disk_usage s = 348" using 4 by (simp only: e)
  from 1 7 3 8 6 show ?thesis by (intro exI [of _ s] conjI)
qed

text \<open>
  C2. The code does not do what the claim says on a store that a set by ordinal under a
  new key has touched. The store holds one record with key \<open>a\<close>; \<open>set(0, r)\<close> with \<open>r\<close>
  of key \<open>x\<close> leaves \<open>r\<close> live under the key \<open>a\<close>; a second record with key \<open>x\<close> is
  appended. Iterating yields both records. \<open>prune\<close> re-appends both under their own key
  \<open>x\<close>, and iterating the compacted store yields the second only: a live record is
  dropped, and the reported size falls from 2 to 1.
\<close>

theorem prune_drops_live_record:
  "(case run ex_P (ex_store, []) ex_churn of
      Inl e \<Rightarrow> None
    | Inr (s, A) \<Rightarrow>
        (case prune ex_P ''t'' s of
           Inl e \<Rightarrow> None
         | Inr s1 \<Rightarrow>
             Some (map fst (header_map s), iter ex_P s, len s,
                   map fst (header_map s1), iter ex_P s1, len s1)))
     = Some ([''a'', ''x''], Inr [doc_x, doc_x2], 2, [''x''], Inr [doc_x2], 1)"
  by code_simp

end
